theory Spec2Isabelle
  imports Main
begin

section \<open>Characters and the string methods of Python that the parser uses\<close>

text \<open>
  A Python \<open>str\<close> is modelled as a \<open>string\<close>, one \<open>char\<close> per code point: the model
  covers the texts whose code points lie below 256 (ASCII and Latin-1). The character
  tables below are those of Python for these code points: \<open>str.isspace\<close> (which is also
  what \<open>\s\<close> matches in a \<open>str\<close> pattern, and what \<open>str.strip\<close> removes), the decimal
  digits (\<open>\d\<close>), the letters with their case mappings, and the cased characters.
\<close>

definition is_space :: "char \<Rightarrow> bool" where
  "is_space c = (c \<in> set [CHR 0x09, CHR 0x0A, CHR 0x0B, CHR 0x0C, CHR 0x0D,
                            CHR 0x1C, CHR 0x1D, CHR 0x1E, CHR 0x1F, CHR 0x20,
                            CHR 0x85, CHR 0xA0])"

definition is_digit :: "char \<Rightarrow> bool" where
  "is_digit c = (c \<in> set ''0123456789'')"

definition ascii_upper :: string where
  "ascii_upper = ''ABCDEFGHIJKLMNOPQRSTUVWXYZ''"

definition ascii_lower :: string where
  "ascii_lower = ''abcdefghijklmnopqrstuvwxyz''"

text \<open>The capitals U+00C0 to U+00DE (without the sign U+00D7) and their small letters.\<close>

definition latin_upper :: string where
  "latin_upper =
     [CHR 0xC0, CHR 0xC1, CHR 0xC2, CHR 0xC3, CHR 0xC4, CHR 0xC5, CHR 0xC6,
      CHR 0xC7, CHR 0xC8, CHR 0xC9, CHR 0xCA, CHR 0xCB, CHR 0xCC, CHR 0xCD,
      CHR 0xCE, CHR 0xCF, CHR 0xD0, CHR 0xD1, CHR 0xD2, CHR 0xD3, CHR 0xD4,
      CHR 0xD5, CHR 0xD6, CHR 0xD8, CHR 0xD9, CHR 0xDA, CHR 0xDB, CHR 0xDC,
      CHR 0xDD, CHR 0xDE]"

definition latin_lower :: string where
  "latin_lower =
     [CHR 0xE0, CHR 0xE1, CHR 0xE2, CHR 0xE3, CHR 0xE4, CHR 0xE5, CHR 0xE6,
      CHR 0xE7, CHR 0xE8, CHR 0xE9, CHR 0xEA, CHR 0xEB, CHR 0xEC, CHR 0xED,
      CHR 0xEE, CHR 0xEF, CHR 0xF0, CHR 0xF1, CHR 0xF2, CHR 0xF3, CHR 0xF4,
      CHR 0xF5, CHR 0xF6, CHR 0xF8, CHR 0xF9, CHR 0xFA, CHR 0xFB, CHR 0xFC,
      CHR 0xFD, CHR 0xFE]"

definition upper_letters :: string where
  "upper_letters = ascii_upper @ latin_upper"

definition lower_letters :: string where
  "lower_letters = ascii_lower @ latin_lower"

definition is_upper :: "char \<Rightarrow> bool" where
  "is_upper c = (c \<in> set upper_letters)"

definition is_lower :: "char \<Rightarrow> bool" where
  "is_lower c = (c \<in> set lower_letters)"

text \<open>
  The cased characters: the letters above, and U+00AA, U+00B5, U+00BA, U+00DF and U+00FF,
  which are lower case and have no capital below 256.
\<close>

definition is_cased :: "char \<Rightarrow> bool" where
  "is_cased c =
     (is_upper c \<or> is_lower c \<or> c \<in> set [CHR 0xAA, CHR 0xB5, CHR 0xBA, CHR 0xDF, CHR 0xFF])"

definition to_lower :: "char \<Rightarrow> char" where
  "to_lower c = (case map_of (zip upper_letters lower_letters) c of Some d \<Rightarrow> d | None \<Rightarrow> c)"

text \<open>
  The title case of a character, as a string: that of U+00DF is \<open>"Ss"\<close>. The title case of
  U+00B5 and of U+00FF lies beyond U+00FF; the two are left as they are here, which is the
  one place where the model is not Python on its texts. Heading detection never
  title-cases them: it title-cases ASCII letters and whitespace only (this is part of the
  theorem on the headings returned).
\<close>

definition to_title :: "char \<Rightarrow> string" where
  "to_title c =
     (case map_of (zip lower_letters upper_letters) c of
        Some d \<Rightarrow> [d]
      | None \<Rightarrow> if c = CHR 0xDF then ''Ss'' else [c])"

text \<open>\<open>str.lower()\<close>\<close>

definition lower :: "string \<Rightarrow> string" where
  "lower s = map to_lower s"

text \<open>\<open>str.strip()\<close>: leading and trailing whitespace removed.\<close>

definition strip :: "string \<Rightarrow> string" where
  "strip s = rev (dropWhile is_space (rev (dropWhile is_space s)))"

text \<open>
  \<open>str.title()\<close>: a character that follows a cased character is lower-cased, every other
  character is title-cased.
\<close>

fun title_from :: "bool \<Rightarrow> string \<Rightarrow> string" where
  "title_from previous_is_cased [] = []"
| "title_from previous_is_cased (c # cs) =
     (if previous_is_cased then [to_lower c] else to_title c) @ title_from (is_cased c) cs"

definition title :: "string \<Rightarrow> string" where
  "title s = title_from False s"

text \<open>\<open>sep.join(xs)\<close>\<close>

fun join :: "string \<Rightarrow> string list \<Rightarrow> string" where
  "join sep [] = []"
| "join sep [x] = x"
| "join sep (x # y # ys) = x @ sep @ join sep (y # ys)"

text \<open>
  \<open>str.splitlines()\<close>: the line boundaries below U+0100 are \<open>\n\<close>, \<open>\r\<close>, \<open>\r\n\<close>, \<open>\v\<close>,
  \<open>\f\<close>, \<open>\x1c\<close>, \<open>\x1d\<close>, \<open>\x1e\<close> and \<open>\x85\<close>; the boundaries are dropped, and a text
  that ends with one has no empty last line.
\<close>

definition is_linebreak :: "char \<Rightarrow> bool" where
  "is_linebreak c =
     (c \<in> set [CHR 0x0A, CHR 0x0B, CHR 0x0C, CHR 0x0D, CHR 0x1C, CHR 0x1D, CHR 0x1E, CHR 0x85])"

fun splitlines_from :: "string \<Rightarrow> string \<Rightarrow> string list" where
  "splitlines_from line [] = (if line = [] then [] else [line])"
| "splitlines_from line (c # cs) =
     (if c = CHR 0x0D then
        (case cs of
           d # ds \<Rightarrow> if d = CHR 0x0A then line # splitlines_from [] ds
                     else line # splitlines_from [] cs
         | [] \<Rightarrow> line # splitlines_from [] cs)
      else if is_linebreak c then line # splitlines_from [] cs
      else splitlines_from (line @ [c]) cs)"

definition splitlines :: "string \<Rightarrow> string list" where
  "splitlines text = splitlines_from [] text"

text \<open>\<open>needle in hay\<close> on strings.\<close>

fun starts_with :: "string \<Rightarrow> string \<Rightarrow> bool" where
  "starts_with [] s = True"
| "starts_with (p # ps) [] = False"
| "starts_with (p # ps) (c # cs) = (p = c \<and> starts_with ps cs)"

fun contains :: "string \<Rightarrow> string \<Rightarrow> bool" where
  "contains needle [] = (needle = [])"
| "contains needle (c # cs) = (starts_with needle (c # cs) \<or> contains needle cs)"


section \<open>Regular expressions, matched as Python's \<open>re\<close> matches them\<close>

text \<open>
  The patterns of the source use character classes, literals, sequence, alternation, an
  optional group, \<open>*\<close> and \<open>+\<close> on a single character class, and \<open>$\<close>. The matcher is a
  backtracking one, as \<open>re\<close> is: a greedy quantifier tries the longest run first and gives
  characters back one at a time, an alternation tries its branches from left to right, and
  the continuation \<open>k\<close> is what remains of the pattern (it receives what remains of the
  input).
\<close>

datatype cclass =
    Ch char          \<comment> \<open>a literal character\<close>
  | ChI char         \<comment> \<open>a literal character under \<open>re.IGNORECASE\<close>\<close>
  | Space            \<comment> \<open>\<open>\s\<close>\<close>
  | Digit            \<comment> \<open>\<open>\d\<close>\<close>
  | AnyChar          \<comment> \<open>\<open>.\<close>: any character but a newline\<close>
  | OneOf string     \<comment> \<open>\<open>[...]\<close>\<close>

fun cmatch :: "cclass \<Rightarrow> char \<Rightarrow> bool" where
  "cmatch (Ch x) c = (c = x)"
| "cmatch (ChI x) c = (to_lower c = to_lower x)"
| "cmatch Space c = is_space c"
| "cmatch Digit c = is_digit c"
| "cmatch AnyChar c = (c \<noteq> CHR 0x0A)"
| "cmatch (OneOf xs) c = (c \<in> set xs)"

datatype regex =
    Eps
  | Sym cclass
  | Seq regex regex
  | Alt regex regex
  | Opt regex
  | Star cclass
  | Plus cclass
  | Eol              \<comment> \<open>\<open>$\<close>: the end of the string, or just before a newline that ends it\<close>

fun star_bt :: "(char \<Rightarrow> bool) \<Rightarrow> string \<Rightarrow> (string \<Rightarrow> 'a option) \<Rightarrow> 'a option" where
  "star_bt P [] k = k []"
| "star_bt P (c # cs) k =
     (if P c then (case star_bt P cs k of Some r \<Rightarrow> Some r | None \<Rightarrow> k (c # cs))
      else k (c # cs))"

fun bt :: "regex \<Rightarrow> string \<Rightarrow> (string \<Rightarrow> 'a option) \<Rightarrow> 'a option" where
  "bt Eps s k = k s"
| "bt (Sym cl) s k = (case s of [] \<Rightarrow> None | c # cs \<Rightarrow> if cmatch cl c then k cs else None)"
| "bt (Seq a b) s k = bt a s (\<lambda>s'. bt b s' k)"
| "bt (Alt a b) s k = (case bt a s k of Some r \<Rightarrow> Some r | None \<Rightarrow> bt b s k)"
| "bt (Opt a) s k = (case bt a s k of Some r \<Rightarrow> Some r | None \<Rightarrow> k s)"
| "bt (Star cl) s k = star_bt (cmatch cl) s k"
| "bt (Plus cl) s k =
     (case s of [] \<Rightarrow> None | c # cs \<Rightarrow> if cmatch cl c then star_bt (cmatch cl) cs k else None)"
| "bt Eol s k = (if s = [] \<or> s = [CHR 0x0A] then k s else None)"

text \<open>\<open>re.match(pattern, s)\<close> as a truth value: the pattern matches at the start of \<open>s\<close>.\<close>

definition re_match :: "regex \<Rightarrow> string \<Rightarrow> bool" where
  "re_match r s = (bt r s (\<lambda>_. Some ()) \<noteq> None)"

fun lit :: "string \<Rightarrow> regex" where
  "lit [] = Eps"
| "lit (c # cs) = Seq (Sym (Ch c)) (lit cs)"

fun liti :: "string \<Rightarrow> regex" where
  "liti [] = Eps"
| "liti (c # cs) = Seq (Sym (ChI c)) (liti cs)"

fun seqs :: "regex list \<Rightarrow> regex" where
  "seqs [] = Eps"
| "seqs (r # rs) = Seq r (seqs rs)"

fun alts :: "regex list \<Rightarrow> regex" where
  "alts [] = Eps"
| "alts [r] = r"
| "alts (r # q # rs) = Alt r (alts (q # rs))"

text \<open>Words separated by \<open>\s+\<close>, as in \<open>literature\s+review\<close>.\<close>

fun phrase :: "string list \<Rightarrow> regex" where
  "phrase [] = Eps"
| "phrase [w] = lit w"
| "phrase (w # v # ws) = Seq (lit w) (Seq (Plus Space) (phrase (v # ws)))"


section \<open>Heading detection (\<open>DocumentHandler._detect_heading\<close>)\<close>

text \<open>\<open>^\s*(...)\s*$\<close> around the alternatives of one entry of \<open>SECTION_PATTERNS\<close>.\<close>

definition whole_line :: "regex list \<Rightarrow> regex" where
  "whole_line branches = seqs [Star Space, alts branches, Star Space, Eol]"

definition SECTION_PATTERNS :: "regex list" where
  "SECTION_PATTERNS =
    [whole_line [phrase [''abstract'']],
     whole_line [phrase [''introduction'']],
     whole_line [phrase [''literature'', ''review'']],
     whole_line [phrase [''background'']],
     whole_line [phrase [''methodology''], phrase [''materials'', ''and'', ''methods''],
                 phrase [''methods'']],
     whole_line [phrase [''experiment''], phrase [''experimental'', ''setup'']],
     whole_line [phrase [''results''], phrase [''findings''], phrase [''analysis'']],
     whole_line [phrase [''discussion''], phrase [''observations'']],
     whole_line [phrase [''conclusion''], phrase [''summary''], phrase [''closing'', ''remarks'']],
     whole_line [phrase [''future'', ''work''], phrase [''recommendations'']],
     whole_line [phrase [''references''], phrase [''bibliography''], phrase [''works'', ''cited'']]]"

text \<open>\<open>\s*\d+[\.\)]\s*\<close>, the numbering in front of a heading.\<close>

definition numbering :: regex where
  "numbering = seqs [Star Space, Plus Digit, Sym (OneOf ''.)''), Star Space]"

text \<open>
  \<open>re.match(r'^\s*\d+[\.\)]\s*(.+)$', l)\<close> and its \<open>group(1)\<close>: \<open>None\<close> when the pattern
  does not match.
\<close>

definition numbered :: "string \<Rightarrow> string option" where
  "numbered l =
     bt numbering l (\<lambda>s1.
       bt (Plus AnyChar) s1 (\<lambda>s2.
         bt Eol s2 (\<lambda>_. Some (take (length s1 - length s2) s1))))"

text \<open>
  \<open>re.sub(r'^\s*\d+[\.\)]\s*', '', text)\<close>: the pattern is anchored, so at most the match
  at the start of the text is replaced.
\<close>

definition sub_numbering :: "string \<Rightarrow> string" where
  "sub_numbering text = (case bt numbering text Some of Some rest \<Rightarrow> rest | None \<Rightarrow> text)"

definition heading_candidate :: "string \<Rightarrow> string" where
  "heading_candidate text =
     (let l = strip (lower text)
      in case numbered l of Some g \<Rightarrow> strip g | None \<Rightarrow> l)"

definition matches_section_pattern :: "string \<Rightarrow> bool" where
  "matches_section_pattern candidate = list_ex (\<lambda>patt. re_match patt candidate) SECTION_PATTERNS"

definition detect_heading :: "string \<Rightarrow> string option" where
  "detect_heading text =
     (if text = [] then None
      else if matches_section_pattern (heading_candidate text)
           then Some (title (strip (sub_numbering text)))
           else None)"


section \<open>Caption detection (\<open>DocumentHandler._detect_caption\<close>)\<close>

text \<open>\<open>^(fig(ure)?\s*\d+[:.\-)]\s+).*\<close> under \<open>re.IGNORECASE\<close>.\<close>

definition FIGURE_CAPTION_PATTERN :: regex where
  "FIGURE_CAPTION_PATTERN =
     seqs [liti ''fig'', Opt (liti ''ure''), Star Space, Plus Digit, Sym (OneOf '':.-)''),
           Plus Space, Star AnyChar]"

text \<open>\<open>line and FIGURE_CAPTION_PATTERN.match(line)\<close>, for a line that may be \<open>None\<close>.\<close>

fun is_caption :: "string option \<Rightarrow> bool" where
  "is_caption None = False"
| "is_caption (Some line) = (line \<noteq> [] \<and> re_match FIGURE_CAPTION_PATTERN line)"

definition detect_caption :: "string option \<Rightarrow> string option \<Rightarrow> string option" where
  "detect_caption previous current =
     (if is_caption previous then previous
      else if is_caption current then current
      else None)"


section \<open>The content model and the handler's state\<close>

text \<open>
  An element is a dictionary with a \<open>"type"\<close> key in the source; the three shapes it builds
  are the three constructors here. \<open>sections\<close> is a Python \<open>dict\<close>: keys are unique and keep
  their insertion order, so it is an association list with the three operations the parser
  uses. Looking a missing key up raises \<open>KeyError\<close>.
\<close>

datatype py_error = KeyError | DocumentReadError | OSError

datatype element =
    Text string
  | Table "string list list"
  | Image (path: "string option") (caption: "string option") (alt_text: string) (virtual: bool)

type_synonym section_map = "(string \<times> element list) list"

definition has_key :: "section_map \<Rightarrow> string \<Rightarrow> bool" where
  "has_key secs k = (k \<in> set (map fst secs))"

text \<open>\<open>secs[k] = v\<close>\<close>

fun dict_set :: "string \<Rightarrow> element list \<Rightarrow> section_map \<Rightarrow> section_map" where
  "dict_set k v [] = [(k, v)]"
| "dict_set k v ((k', v') # ps) = (if k' = k then (k, v) # ps else (k', v') # dict_set k v ps)"

text \<open>\<open>secs[k].append(e)\<close>; \<open>None\<close> stands for the \<open>KeyError\<close> of a missing key.\<close>

fun dict_append :: "string \<Rightarrow> element \<Rightarrow> section_map \<Rightarrow> section_map option" where
  "dict_append k e [] = None"
| "dict_append k e ((k', v) # ps) =
     (if k' = k then Some ((k', v @ [e]) # ps)
      else map_option (Cons (k', v)) (dict_append k e ps))"

record handler =
  sections :: section_map
  detected_order :: "string list"
  last_text :: "string option"

text \<open>\<open>DocumentHandler.__init__\<close>\<close>

definition init_handler :: handler where
  "init_handler = \<lparr>sections = [], detected_order = [], last_text = None\<rparr>"

text \<open>
  The state of a walk over the input: the handler's fields and the local variable
  \<open>current_section\<close>; the walk over plain text has the local \<open>buffer\<close> as well.
\<close>

record walk = handler +
  current_section :: string

record text_walk = walk +
  buffer :: "string list"

text \<open>The handler a walk leaves behind.\<close>

definition handler_of :: "'a handler_scheme \<Rightarrow> handler" where
  "handler_of w =
     \<lparr>sections = sections w, detected_order = detected_order w, last_text = last_text w\<rparr>"

text \<open>\<open>self.sections[current_section].append(e)\<close>\<close>

definition append_element :: "element \<Rightarrow> 'a walk_scheme \<Rightarrow> py_error + 'a walk_scheme" where
  "append_element e w =
     (case dict_append (current_section w) e (sections w) of
        None \<Rightarrow> Inl KeyError
      | Some secs \<Rightarrow> Inr (w\<lparr>sections := secs\<rparr>))"

text \<open>
  Entering a section: \<open>current_section = heading\<close>, and a heading that is not yet a key gets
  an empty section and a place at the end of \<open>detected_order\<close>.
\<close>

definition enter_section :: "string \<Rightarrow> 'a walk_scheme \<Rightarrow> 'a walk_scheme" where
  "enter_section heading w =
     (if has_key (sections w) heading then w\<lparr>current_section := heading\<rparr>
      else w\<lparr>current_section := heading,
             sections := dict_set heading [] (sections w),
             detected_order := detected_order w @ [heading]\<rparr>)"

text \<open>\<open>DocumentHandler._cleanup\<close>: drop the empty sections and sync \<open>detected_order\<close>.\<close>

definition cleanup :: "handler \<Rightarrow> handler" where
  "cleanup h =
     (let secs = filter (\<lambda>(k, v). v \<noteq> []) (sections h)
      in h\<lparr>sections := secs, detected_order := filter (has_key secs) (detected_order h)\<rparr>)"


section \<open>The plain text parser (\<open>DocumentHandler.parse_text\<close>)\<close>

text \<open>The local function \<open>flush\<close>. An exception leaves the state as it was.\<close>

definition flush :: "text_walk \<Rightarrow> py_error + text_walk" where
  "flush w =
     (if buffer w \<noteq> [] then
        (let para = strip (join '' '' (buffer w))
         in if para \<noteq> [] then
              (case append_element (Text para) w of
                 Inl e \<Rightarrow> Inl e
               | Inr w' \<Rightarrow> Inr (w'\<lparr>buffer := []\<rparr>))
            else Inr (w\<lparr>buffer := []\<rparr>))
      else Inr w)"

text \<open>
  The body of the loop, for one line. \<open>if heading:\<close> is false for \<open>None\<close> and for the empty
  string.
\<close>

definition text_step :: "text_walk \<Rightarrow> string \<Rightarrow> py_error + text_walk" where
  "text_step w line =
     (let stripped = strip line
      in if stripped = [] then flush w
         else (case detect_heading stripped of
                 Some heading \<Rightarrow>
                   if heading \<noteq> [] then
                     (case flush w of
                        Inl e \<Rightarrow> Inl e
                      | Inr w' \<Rightarrow> Inr (enter_section heading w'))
                   else Inr (w\<lparr>buffer := buffer w @ [stripped]\<rparr>)
               | None \<Rightarrow> Inr (w\<lparr>buffer := buffer w @ [stripped]\<rparr>)))"

text \<open>The loop: the state it reached, and the exception that stopped it, if any.\<close>

fun text_loop :: "text_walk \<Rightarrow> string list \<Rightarrow> text_walk \<times> py_error option" where
  "text_loop w [] = (w, None)"
| "text_loop w (line # rest) =
     (case text_step w line of
        Inl e \<Rightarrow> (w, Some e)
      | Inr w' \<Rightarrow> text_loop w' rest)"

text \<open>
  \<open>parse_text\<close> on a handler: the handler afterwards, and the exception raised or the value
  returned (\<open>self.sections\<close>).
\<close>

definition text_start :: "handler \<Rightarrow> text_walk" where
  "text_start h =
     \<lparr>sections = dict_set ''Uncategorized'' [] [],
      detected_order = [] @ [''Uncategorized''],
      last_text = last_text h,
      current_section = ''Uncategorized'',
      buffer = []\<rparr>"

definition parse_text :: "handler \<Rightarrow> string \<Rightarrow> handler \<times> (py_error + section_map)" where
  "parse_text h text =
     (case text_loop (text_start h) (splitlines text) of
        (w, Some e) \<Rightarrow> (handler_of w, Inl e)
      | (w, None) \<Rightarrow>
          (case flush w of
             Inl e \<Rightarrow> (handler_of w, Inl e)
           | Inr w' \<Rightarrow> (let h' = cleanup (handler_of w') in (h', Inr (sections h')))))"


section \<open>The DOCX parser (\<open>DocumentHandler.parse_docx\<close>)\<close>

text \<open>
  What python-docx hands to the parser: the body of the document as its blocks in order
  (a paragraph with its text and, for each run, the attributes of the XML nodes below it;
  a table with the texts of its cells, row by row; anything else), and the relationships
  of the document part. A relationship whose target part cannot be read has no part name.
  The attribute names of one XML node are distinct.
\<close>

record xml_node =
  attrib :: "(string \<times> string) list"

record para =
  para_text :: string
  runs :: "xml_node list list"

datatype block = CT_P para | CT_Tbl "string list list" | CT_Other

record relationship =
  rId :: string
  reltype :: string
  target_partname :: "string option"

record document =
  body :: "block list"
  rels :: "relationship list"

text \<open>
  The world outside: \<open>Document(path)\<close> (\<open>None\<close> when it raises, the file being corrupt or
  unreadable), the directory of temporary files, whether \<open>os.makedirs\<close> succeeds, and
  whether a file can be opened and written at a given path.
\<close>

record environment =
  open_document :: "string \<Rightarrow> document option"
  tempdir :: string
  makedirs_ok :: bool
  write_ok :: "string \<Rightarrow> bool"

text \<open>\<open>os.path.basename\<close> and \<open>os.path.join\<close> (of two paths), with \<open>/\<close> as the separator.\<close>

definition basename :: "string \<Rightarrow> string" where
  "basename p = rev (takeWhile (\<lambda>c. c \<noteq> CHR ''/'') (rev p))"

definition path_join :: "string \<Rightarrow> string \<Rightarrow> string" where
  "path_join a b =
     (if starts_with ''/'' b then b
      else if a = [] \<or> last a = CHR ''/'' then a @ b
      else a @ ''/'' @ b)"

text \<open>
  \<open>_extract_all_images\<close>: one relationship at a time; whatever is raised inside the \<open>try\<close>
  is caught and the relationship is skipped.
\<close>

definition extract_image ::
  "environment \<Rightarrow> string \<Rightarrow> (string \<rightharpoonup> string) \<Rightarrow> relationship \<Rightarrow> (string \<rightharpoonup> string)" where
  "extract_image env image_dir image_map rel =
     (if contains ''image'' (reltype rel) then
        (case target_partname rel of
           None \<Rightarrow> image_map
         | Some partname \<Rightarrow>
             (let out_path = path_join image_dir (basename partname)
              in if write_ok env out_path then image_map(rId rel \<mapsto> out_path)
                 else image_map))
      else image_map)"

definition extract_all_images ::
  "environment \<Rightarrow> document \<Rightarrow> string \<Rightarrow> (string \<rightharpoonup> string)" where
  "extract_all_images env doc image_dir =
     foldl (extract_image env image_dir) Map.empty (rels doc)"

text \<open>\<open>_extract_images_from_paragraph\<close>\<close>

definition node_images :: "(string \<rightharpoonup> string) \<Rightarrow> xml_node \<Rightarrow> element list" where
  "node_images image_map node =
     concat (map (\<lambda>(attr, val).
                    if contains ''embed'' attr
                    then [Image (image_map val) None
                            (case map_of (attrib node) ''descr'' of Some d \<Rightarrow> d | None \<Rightarrow> [])
                            False]
                    else [])
                 (attrib node))"

definition extract_images_from_paragraph ::
  "para \<Rightarrow> (string \<rightharpoonup> string) \<Rightarrow> element list" where
  "extract_images_from_paragraph para image_map =
     concat (map (\<lambda>run. concat (map (node_images image_map) run)) (runs para))"

text \<open>\<open>img["caption"] = ...\<close>\<close>

fun with_caption :: "string option \<Rightarrow> element \<Rightarrow> element" where
  "with_caption c (Image p old a v) = Image p c a v"
| "with_caption c e = e"

text \<open>Appending the elements of a list one by one; an exception stops the loop.\<close>

fun append_all :: "'a walk_scheme \<Rightarrow> element list \<Rightarrow> 'a walk_scheme \<times> py_error option" where
  "append_all w [] = (w, None)"
| "append_all w (e # es) =
     (case append_element e w of
        Inl x \<Rightarrow> (w, Some x)
      | Inr w' \<Rightarrow> append_all w' es)"

text \<open>A paragraph that is not a heading: its inline images, or else its text.\<close>

definition place_paragraph ::
  "(string \<rightharpoonup> string) \<Rightarrow> walk \<Rightarrow> para \<Rightarrow> string \<Rightarrow> walk \<times> py_error option" where
  "place_paragraph image_map w para txt =
     (let imgs = extract_images_from_paragraph para image_map
      in if imgs \<noteq> [] then
           (case append_all w (map (with_caption (detect_caption (last_text w) (Some txt))) imgs) of
              (w', Some e) \<Rightarrow> (w', Some e)
            | (w', None) \<Rightarrow> (w'\<lparr>last_text := Some txt\<rparr>, None))
         else if txt \<noteq> [] then
           (case append_element (Text txt) w of
              Inl e \<Rightarrow> (w, Some e)
            | Inr w' \<Rightarrow> (w'\<lparr>last_text := Some txt\<rparr>, None))
         else (w\<lparr>last_text := Some txt\<rparr>, None))"

text \<open>The body of the loop over the blocks.\<close>

fun docx_step :: "(string \<rightharpoonup> string) \<Rightarrow> walk \<Rightarrow> block \<Rightarrow> walk \<times> py_error option" where
  "docx_step image_map w (CT_P p) =
     (let txt = strip (para_text p)
      in case (if txt \<noteq> [] then detect_heading txt else None) of
           Some heading \<Rightarrow>
             if heading \<noteq> [] then ((enter_section heading w)\<lparr>last_text := Some txt\<rparr>, None)
             else place_paragraph image_map w p txt
         | None \<Rightarrow> place_paragraph image_map w p txt)"
| "docx_step image_map w (CT_Tbl rows) =
     (case append_element (Table (map (map strip) rows)) w of
        Inl e \<Rightarrow> (w, Some e)
      | Inr w' \<Rightarrow> (w', None))"
| "docx_step image_map w CT_Other = (w, None)"

fun docx_loop :: "(string \<rightharpoonup> string) \<Rightarrow> walk \<Rightarrow> block list \<Rightarrow> walk \<times> py_error option" where
  "docx_loop image_map w [] = (w, None)"
| "docx_loop image_map w (b # bs) =
     (case docx_step image_map w b of
        (w', Some e) \<Rightarrow> (w', Some e)
      | (w', None) \<Rightarrow> docx_loop image_map w' bs)"

definition docx_start :: walk where
  "docx_start =
     \<lparr>sections = [(''Uncategorized'', [])],
      detected_order = [''Uncategorized''],
      last_text = None,
      current_section = ''Uncategorized''\<rparr>"

text \<open>
  \<open>parse_docx\<close> on a handler: the handler afterwards, and the exception raised or the value
  returned (\<open>self.sections\<close>).
\<close>

definition parse_docx ::
  "environment \<Rightarrow> handler \<Rightarrow> string \<Rightarrow> handler \<times> (py_error + section_map)" where
  "parse_docx env h docx_path =
     (case open_document env docx_path of
        None \<Rightarrow> (h, Inl DocumentReadError)
      | Some doc \<Rightarrow>
          if \<not> makedirs_ok env then (handler_of docx_start, Inl OSError)
          else
            (let img_dir = path_join (tempdir env) ''docmaster_images'';
                 image_map = extract_all_images env doc img_dir
             in case docx_loop image_map docx_start (body doc) of
                  (w, Some e) \<Rightarrow> (handler_of w, Inl e)
                | (w, None) \<Rightarrow>
                    (let h' = cleanup (handler_of w) in (h', Inr (sections h')))))"


section \<open>The section classifier (\<open>section_predictor.predict_section\<close>)\<close>






section \<open>Auxiliary definitions\<close>

text \<open>
  The definitions of this section are not code of the repository: they state the claims
  and structure the proofs.
\<close>

text \<open>\<open>str.rstrip()\<close>: \<open>strip\<close> is \<open>rstrip\<close> after the leading whitespace is dropped.\<close>

definition rstrip :: "string \<Rightarrow> string" where
  "rstrip s = rev (dropWhile is_space (rev s))"

text \<open>The character classes that occur in a pattern.\<close>

fun classes :: "regex \<Rightarrow> cclass list" where
  "classes Eps = []"
| "classes (Sym cl) = [cl]"
| "classes (Seq a b) = classes a @ classes b"
| "classes (Alt a b) = classes a @ classes b"
| "classes (Opt a) = classes a"
| "classes (Star cl) = [cl]"
| "classes (Plus cl) = [cl]"
| "classes Eol = []"

text \<open>A pattern that cannot match without passing a \<open>$\<close>.\<close>

fun ends_eol :: "regex \<Rightarrow> bool" where
  "ends_eol Eol = True"
| "ends_eol (Seq a b) = (ends_eol a \<or> ends_eol b)"
| "ends_eol (Alt a b) = (ends_eol a \<and> ends_eol b)"
| "ends_eol r = False"

text \<open>The ASCII letters.\<close>

definition is_ascii_lower :: "char \<Rightarrow> bool" where
  "is_ascii_lower c = (c \<in> set ascii_lower)"


text \<open>A class of lower-case ASCII letters or whitespace only.\<close>

fun plain_class :: "cclass \<Rightarrow> bool" where
  "plain_class (Ch x) = is_ascii_lower x"
| "plain_class Space = True"
| "plain_class cl = False"

text \<open>
  What follows the numbering of a numbered line: the text after leading whitespace, one
  or more digits and a \<open>.\<close> or \<open>)\<close>; \<open>None\<close> for a line that does not start so.
\<close>

definition after_number :: "string \<Rightarrow> string option" where
  "after_number s =
     (case dropWhile is_space s of
        [] \<Rightarrow> None
      | d # r \<Rightarrow>
          if is_digit d then
            (case dropWhile is_digit r of
               [] \<Rightarrow> None
             | c # cs \<Rightarrow> if c \<in> set ''.)'' then Some cs else None)
          else None)"

text \<open>\<open>(.+)$\<close> and its group, the tail of the pattern of a numbered heading.\<close>

definition group_to_eol :: "string \<Rightarrow> string option" where
  "group_to_eol s1 =
     bt (Plus AnyChar) s1 (\<lambda>s2. bt Eol s2 (\<lambda>_. Some (take (length s1 - length s2) s1)))"

text \<open>
  A line that is a heading as a whole: with its numbering removed (by the substitution of
  the source), lower-cased and stripped, it matches one of \<open>SECTION_PATTERNS\<close>, each of
  which is anchored at both ends.
\<close>

definition whole_line_heading :: "string \<Rightarrow> bool" where
  "whole_line_heading line = matches_section_pattern (strip (lower (sub_numbering line)))"



subsection \<open>The effect of a walk on the sections\<close>

text \<open>
  A walk over the input comes down to a sequence of events: a heading is entered, or an
  element is put into the current section.
\<close>

datatype event = Enter string | Put element

text \<open>
  The part of the state that the events act on: \<open>sections\<close>, \<open>detected_order\<close> and
  \<open>current_section\<close>.
\<close>

type_synonym core = "section_map \<times> string list \<times> string"

definition core :: "'a walk_scheme \<Rightarrow> core" where
  "core w = (sections w, detected_order w, current_section w)"

text \<open>
  The events applied as \<open>enter_section\<close> and \<open>append_element\<close> apply them; \<open>None\<close> stands for
  the \<open>KeyError\<close> of a missing section.
\<close>

fun apply_events :: "event list \<Rightarrow> core \<Rightarrow> core option" where
  "apply_events [] c = Some c"
| "apply_events (Enter n # evs) (secs, ord, cur) =
     apply_events evs
       (if has_key secs n then (secs, ord, n) else (dict_set n [] secs, ord @ [n], n))"
| "apply_events (Put e # evs) (secs, ord, cur) =
     (case dict_append cur e secs of
        None \<Rightarrow> None
      | Some secs' \<Rightarrow> apply_events evs (secs', ord, cur))"

text \<open>
  The elements that a sequence of events puts, each with the section it is put into.
\<close>

fun filed :: "string \<Rightarrow> event list \<Rightarrow> (string \<times> element) list" where
  "filed cur [] = []"
| "filed cur (Enter n # evs) = filed n evs"
| "filed cur (Put e # evs) = (cur, e) # filed cur evs"

definition filed_under :: "string \<Rightarrow> string \<Rightarrow> event list \<Rightarrow> element list" where
  "filed_under n cur evs = map snd (filter (\<lambda>p. fst p = n) (filed cur evs))"

text \<open>
  The headings that a sequence of events enters.
\<close>

fun entered :: "event list \<Rightarrow> string list" where
  "entered [] = []"
| "entered (Enter n # evs) = n # entered evs"
| "entered (Put e # evs) = entered evs"

text \<open>
  Names in the order in which they are first seen, after those of \<open>acc\<close>.
\<close>

fun first_seen :: "string list \<Rightarrow> string list \<Rightarrow> string list" where
  "first_seen acc [] = acc"
| "first_seen acc (n # ns) = first_seen (if n \<in> set acc then acc else acc @ [n]) ns"

text \<open>
  The model that a walk from the single empty section "Uncategorized" leaves after the
  cleanup: the names in the order of their first occurrence, without those that got no
  element, each with the elements filed under it.
\<close>

definition model_order :: "event list \<Rightarrow> string list" where
  "model_order evs =
     filter (\<lambda>n. filed_under n ''Uncategorized'' evs \<noteq> [])
       (first_seen [''Uncategorized''] (entered evs))"

definition model_of :: "event list \<Rightarrow> section_map" where
  "model_of evs = map (\<lambda>n. (n, filed_under n ''Uncategorized'' evs)) (model_order evs)"

text \<open>
  The elements under a key of the dictionary, none for a missing key.
\<close>

definition elems :: "section_map \<Rightarrow> string \<Rightarrow> element list" where
  "elems secs n = (case map_of secs n of Some v \<Rightarrow> v | None \<Rightarrow> [])"

text \<open>
  The invariant of a walk: \<open>detected_order\<close> lists the keys of \<open>sections\<close> in their order,
  without duplicates, and \<open>current_section\<close> is one of them.
\<close>

definition wf_core :: "core \<Rightarrow> bool" where
  "wf_core c = (case c of (secs, ord, cur) \<Rightarrow>
     map fst secs = ord \<and> distinct ord \<and> cur \<in> set ord)"

text \<open>
  \<open>_cleanup\<close>, on the part of the state it acts on.
\<close>

definition cleanup_core :: "core \<Rightarrow> section_map \<times> string list" where
  "cleanup_core c = (case c of (secs, ord, cur) \<Rightarrow>
     (let secs' = filter (\<lambda>(k, v). v \<noteq> []) secs in (secs', filter (has_key secs') ord)))"

text \<open>
  What a loop leaves of that part, when it raised nothing.
\<close>

fun ok_core :: "'a walk_scheme \<times> py_error option \<Rightarrow> core option" where
  "ok_core (w, None) = Some (core w)"
| "ok_core (w, Some e) = None"

subsection \<open>The events of a text\<close>










subsection \<open>Image extraction\<close>

text \<open>
  The path under which the image of a relationship is saved, \<open>None\<close> when the relationship
  is not an image or its extraction fails: the target part cannot be read, or the file
  cannot be written.
\<close>

definition extracted :: "environment \<Rightarrow> string \<Rightarrow> relationship \<Rightarrow> string option" where
  "extracted env image_dir rel =
     (if contains ''image'' (reltype rel) then
        (case target_partname rel of
           None \<Rightarrow> None
         | Some partname \<Rightarrow>
             if write_ok env (path_join image_dir (basename partname))
             then Some (path_join image_dir (basename partname)) else None)
      else None)"

text \<open>The directory of the images.\<close>

definition image_dir :: "environment \<Rightarrow> string" where
  "image_dir env = path_join (tempdir env) ''docmaster_images''"

text \<open>
  The path saved for a relationship id, given the relationships in their order: that of
  the last relationship with this id whose image was extracted, \<open>None\<close> when there is none.
\<close>

fun saved_path :: "environment \<Rightarrow> string \<Rightarrow> relationship list \<Rightarrow> string \<Rightarrow> string option" where
  "saved_path env dir [] rid = None"
| "saved_path env dir (rel # rs) rid =
     (case saved_path env dir rs rid of
        Some q \<Rightarrow> Some q
      | None \<Rightarrow> if rId rel = rid then extracted env dir rel else None)"

text \<open>
  The image references of a paragraph, in the order of the document: for every attribute
  of a node whose name has \<open>embed\<close> in it, the relationship id that the attribute holds,
  with the description of the node (its \<open>descr\<close>, empty when it has none).
\<close>

definition node_refs :: "xml_node \<Rightarrow> (string \<times> string) list" where
  "node_refs node =
     map (\<lambda>(attr, val). (val, case map_of (attrib node) ''descr'' of Some d \<Rightarrow> d | None \<Rightarrow> []))
       (filter (\<lambda>(attr, val). contains ''embed'' attr) (attrib node))"

definition embedded :: "para \<Rightarrow> (string \<times> string) list" where
  "embedded p = concat (map node_refs (concat (runs p)))"

subsection \<open>The events of a document\<close>

text \<open>
  The events of one block of a document, given the text of the paragraph before it, and
  the text that the block leaves for the next one. A paragraph that is a heading enters
  its section, and its images are left out; any other paragraph with image references
  puts one image for each reference, with the path that the image map has for its
  relationship id; a paragraph with none puts its text, when it has one.
\<close>

definition block_events :: "(string \<rightharpoonup> string) \<Rightarrow> string option \<Rightarrow> block \<Rightarrow> event list" where
  "block_events image_map prev b =
     (case b of
        CT_P p \<Rightarrow>
          (let txt = strip (para_text p)
           in case detect_heading txt of
                Some h \<Rightarrow> [Enter h]
              | None \<Rightarrow>
                  if embedded p \<noteq> []
                  then map (\<lambda>(rid, alt).
                              Put (Image (image_map rid) (detect_caption prev (Some txt)) alt False))
                         (embedded p)
                  else if txt \<noteq> [] then [Put (Text txt)] else [])
      | CT_Tbl rows \<Rightarrow> [Put (Table (map (map strip) rows))]
      | CT_Other \<Rightarrow> [])"

definition block_last :: "string option \<Rightarrow> block \<Rightarrow> string option" where
  "block_last prev b = (case b of CT_P p \<Rightarrow> Some (strip (para_text p)) | _ \<Rightarrow> prev)"

fun docx_events :: "(string \<rightharpoonup> string) \<Rightarrow> string option \<Rightarrow> block list \<Rightarrow> event list" where
  "docx_events image_map prev [] = []"
| "docx_events image_map prev (b # bs) =
     block_events image_map prev b @ docx_events image_map (block_last prev b) bs"

text \<open>
  The image map and the model of a document that could be opened.
\<close>

definition docx_image_map :: "environment \<Rightarrow> document \<Rightarrow> (string \<rightharpoonup> string)" where
  "docx_image_map env doc = saved_path env (image_dir env) (rels doc)"

definition docx_model :: "environment \<Rightarrow> document \<Rightarrow> section_map" where
  "docx_model env doc = model_of (docx_events (docx_image_map env doc) None (body doc))"




subsection \<open>Models without the paths of the images\<close>

text \<open>
  An element, an event and a model with the paths of the images forgotten.
\<close>

fun erase_path :: "element \<Rightarrow> element" where
  "erase_path (Image p c a v) = Image None c a v"
| "erase_path e = e"

fun erase_event :: "event \<Rightarrow> event" where
  "erase_event (Put e) = Put (erase_path e)"
| "erase_event (Enter n) = Enter n"

definition erase_paths :: "section_map \<Rightarrow> section_map" where
  "erase_paths secs = map (\<lambda>(n, els). (n, map erase_path els)) secs"


section \<open>Lemmas on strings, on the matcher and on heading detection\<close>

subsection \<open>Stripping\<close>

lemma strip_rstrip: "strip s = rstrip (dropWhile is_space s)"
  by (simp add: strip_def rstrip_def)

lemma dropWhile_all: "(\<forall>c\<in>set s. P c) \<Longrightarrow> dropWhile P s = []"
  by simp

lemma rstrip_Nil [simp]: "rstrip [] = []"
  by (simp add: rstrip_def)

lemma rstrip_all_space: "(\<forall>c\<in>set s. is_space c) \<Longrightarrow> rstrip s = []"
  by (simp add: rstrip_def)

lemma rstrip_empty_iff: "rstrip s = [] \<longleftrightarrow> (\<forall>c\<in>set s. is_space c)"
  by (auto simp: rstrip_def dropWhile_eq_Nil_conv)

lemma rstrip_append_nonspace: "\<not> is_space x \<Longrightarrow> rstrip (p @ x # s) = p @ x # rstrip s"
  unfolding rstrip_def
  by (induction s rule: rev_induct) (auto simp: dropWhile_append)

lemma rstrip_Cons:
  "rstrip (x # s) = (if is_space x \<and> rstrip s = [] then [] else x # rstrip s)"
proof (cases "\<forall>c\<in>set s. is_space c")
  case True
  then show ?thesis by (auto simp: rstrip_def dropWhile_append dropWhile_eq_Nil_conv)
next
  case False
  then show ?thesis
    by (auto simp: rstrip_def dropWhile_append dropWhile_eq_Nil_conv)
qed

lemma rstrip_append_space: "(\<forall>c\<in>set r. is_space c) \<Longrightarrow> rstrip (s @ r) = rstrip s"
  by (simp add: rstrip_def dropWhile_append)

lemma dropWhile_rstrip:
  "(\<And>c. P c \<Longrightarrow> \<not> is_space c) \<Longrightarrow> dropWhile P (rstrip s) = rstrip (dropWhile P s)"
  by (induction s) (auto simp: rstrip_Cons)

lemma dropWhile_space_rstrip: "dropWhile is_space (rstrip s) = rstrip (dropWhile is_space s)"
proof (induction s)
  case Nil
  then show ?case by simp
next
  case (Cons x s)
  show ?case
  proof (cases "is_space x")
    case True
    show ?thesis
    proof (cases "rstrip s = []")
      case e: True
      then have "\<forall>c\<in>set s. is_space c" by (simp add: rstrip_empty_iff)
      then have "dropWhile is_space s = []" by (rule dropWhile_all)
      with True e show ?thesis by (simp add: rstrip_Cons del: dropWhile_eq_Nil_conv)
    next
      case False
      with True Cons show ?thesis by (simp add: rstrip_Cons)
    qed
  next
    case False
    then show ?thesis by (simp add: rstrip_Cons)
  qed
qed

lemma rstrip_idem [simp]: "rstrip (rstrip s) = rstrip s"
  by (induction s) (auto simp: rstrip_Cons)

lemma strip_idem [simp]: "strip (strip s) = strip s"
  by (simp add: strip_rstrip dropWhile_space_rstrip)

lemma strip_dropWhile [simp]: "strip (dropWhile is_space s) = strip s"
  by (simp add: strip_rstrip)

lemma strip_rstrip' [simp]: "strip (rstrip s) = strip s"
  by (simp add: strip_rstrip dropWhile_space_rstrip)

lemma strip_append_space: "(\<forall>c\<in>set r. is_space c) \<Longrightarrow> strip (s @ r) = strip s"
proof (cases "\<forall>c\<in>set s. is_space c")
  case True
  assume r: "\<forall>c\<in>set r. is_space c"
  have "dropWhile is_space (s @ r) = []" using True r by (intro dropWhile_all) auto
  moreover have "dropWhile is_space s = []" using True by (rule dropWhile_all)
  ultimately show ?thesis by (simp add: strip_rstrip del: dropWhile_eq_Nil_conv)
next
  case False
  assume r: "\<forall>c\<in>set r. is_space c"
  from False obtain x where "x \<in> set s" "\<not> is_space x" by blast
  then have "dropWhile is_space (s @ r) = dropWhile is_space s @ r"
    by (rule dropWhile_append1)
  with r show ?thesis
    by (simp add: strip_rstrip rstrip_append_space)
qed

lemma strip_space_append: "(\<forall>c\<in>set r. is_space c) \<Longrightarrow> strip (r @ s) = strip s"
  by (simp add: strip_rstrip dropWhile_append)

lemma strip_drop_spaces:
  "i \<le> length (takeWhile is_space s) \<Longrightarrow> strip (drop i s) = strip s"
proof -
  assume i: "i \<le> length (takeWhile is_space s)"
  have s: "s = takeWhile is_space s @ dropWhile is_space s" by simp
  have "drop i s = drop i (takeWhile is_space s) @ dropWhile is_space s"
    using i by (metis s drop_append diff_is_0_eq drop0)
  moreover have "\<forall>c\<in>set (drop i (takeWhile is_space s)). is_space c"
    by (meson in_set_dropD set_takeWhileD)
  ultimately have "strip (drop i s) = strip (dropWhile is_space s)"
    by (simp add: strip_space_append)
  then show ?thesis by simp
qed





subsection \<open>Letters\<close>


lemma upper_letters_props:
  "\<forall>c\<in>set upper_letters. \<not> is_space c \<and> \<not> is_digit c \<and> c \<noteq> CHR 0x0A \<and> c \<notin> set ''.)''"
  by code_simp

lemma lower_letters_props:
  "\<forall>c\<in>set lower_letters. \<not> is_space c \<and> \<not> is_digit c \<and> c \<noteq> CHR 0x0A \<and> c \<notin> set ''.)''"
  by code_simp

lemma is_upper_props: "is_upper c \<Longrightarrow> \<not> is_space c \<and> \<not> is_digit c \<and> c \<noteq> CHR 0x0A \<and> c \<notin> set ''.)''"
  using upper_letters_props unfolding is_upper_def by (rule bspec)

lemma is_lower_props: "is_lower c \<Longrightarrow> \<not> is_space c \<and> \<not> is_digit c \<and> c \<noteq> CHR 0x0A \<and> c \<notin> set ''.)''"
  using lower_letters_props unfolding is_lower_def by (rule bspec)

lemma letters_length: "length upper_letters = length lower_letters"
  by code_simp

lemma to_lower_zip:
  "to_lower c = c \<and> c \<notin> set upper_letters \<or> (c, to_lower c) \<in> set (zip upper_letters lower_letters)"
proof (cases "map_of (zip upper_letters lower_letters) c")
  case None
  then have "c \<notin> fst ` set (zip upper_letters lower_letters)" by (simp add: map_of_eq_None_iff)
  then have "c \<notin> set (map fst (zip upper_letters lower_letters))" by simp
  moreover have "map fst (zip upper_letters lower_letters) = upper_letters"
    using letters_length by (rule map_fst_zip)
  ultimately have "c \<notin> set upper_letters" by simp
  with None show ?thesis by (simp add: to_lower_def)
next
  case (Some d)
  then have "(c, d) \<in> set (zip upper_letters lower_letters)" by (rule map_of_SomeD)
  with Some show ?thesis by (simp add: to_lower_def)
qed

lemma to_lower_cases: "to_lower c = c \<and> \<not> is_upper c \<or> is_upper c \<and> is_lower (to_lower c)"
  using to_lower_zip[of c] unfolding is_upper_def is_lower_def
  by (auto dest: set_zip_leftD set_zip_rightD)

lemma is_space_to_lower [simp]: "is_space (to_lower c) = is_space c"
  using to_lower_cases[of c] is_upper_props[of c] is_lower_props[of "to_lower c"] by auto

lemma is_digit_to_lower [simp]: "is_digit (to_lower c) = is_digit c"
  using to_lower_cases[of c] is_upper_props[of c] is_lower_props[of "to_lower c"] by auto

lemma to_lower_newline [simp]: "to_lower c = CHR 0x0A \<longleftrightarrow> c = CHR 0x0A"
  using to_lower_cases[of c] is_upper_props[of c] is_lower_props[of "to_lower c"] by auto

lemma to_lower_punct [simp]: "to_lower c \<in> set ''.)'' \<longleftrightarrow> c \<in> set ''.)''"
  using to_lower_cases[of c] is_upper_props[of c] is_lower_props[of "to_lower c"] by auto



lemma ascii_lower_is_lower: "is_ascii_lower c \<Longrightarrow> is_lower c"
  by (simp add: is_ascii_lower_def is_lower_def lower_letters_def)










lemma lower_dropWhile_space: "dropWhile is_space (lower s) = lower (dropWhile is_space s)"
  by (simp add: lower_def dropWhile_map comp_def)

lemma lower_dropWhile_digit: "dropWhile is_digit (lower s) = lower (dropWhile is_digit s)"
  by (simp add: lower_def dropWhile_map comp_def)

lemma lower_rstrip: "rstrip (lower s) = lower (rstrip s)"
  by (simp add: lower_def rstrip_def dropWhile_map comp_def rev_map)

lemma lower_strip: "strip (lower s) = lower (strip s)"
  by (simp add: strip_rstrip lower_rstrip lower_dropWhile_space)


lemma to_title_nonempty [simp]: "to_title c \<noteq> []"
  by (simp add: to_title_def split: option.splits)

lemma title_from_empty [simp]: "title_from b s = [] \<longleftrightarrow> s = []"
  by (cases s) auto

subsection \<open>The matcher\<close>

lemma star_bt_sound:
  "star_bt P s k = Some x \<Longrightarrow> \<exists>p q. s = p @ q \<and> (\<forall>c\<in>set p. P c) \<and> k q = Some x"
proof (induction s)
  case Nil
  then show ?case by simp
next
  case (Cons c cs)
  show ?case
  proof (cases "P c \<and> star_bt P cs k = Some x")
    case True
    with Cons.IH obtain p q where "cs = p @ q" "\<forall>c\<in>set p. P c" "k q = Some x" by blast
    with True have "c # cs = (c # p) @ q \<and> (\<forall>c\<in>set (c # p). P c) \<and> k q = Some x" by simp
    then show ?thesis by blast
  next
    case False
    with Cons.prems have "k (c # cs) = Some x" by (auto split: if_splits option.splits)
    then have "c # cs = [] @ (c # cs) \<and> (\<forall>c\<in>set []. P c) \<and> k (c # cs) = Some x" by simp
    then show ?thesis by blast
  qed
qed

lemma star_bt_greedy: "k (dropWhile P s) = Some r \<Longrightarrow> star_bt P s k = Some r"
  by (induction s) auto

lemma star_bt_det:
  "(\<And>c cs. P c \<Longrightarrow> k (c # cs) = None) \<Longrightarrow> star_bt P s k = k (dropWhile P s)"
  by (induction s) (auto split: option.splits)

lemma star_bt_Some: "star_bt P s Some = Some (dropWhile P s)"
  by (simp add: star_bt_greedy)

lemma bt_sound:
  "bt r s k = Some x \<Longrightarrow>
   \<exists>p q. s = p @ q \<and> (\<forall>c\<in>set p. \<exists>cl\<in>set (classes r). cmatch cl c) \<and> k q = Some x"
proof (induction r arbitrary: s k)
  case Eps
  then show ?case by auto
next
  case (Sym cl)
  then obtain c cs where s: "s = c # cs" "cmatch cl c" "k cs = Some x"
    by (auto split: list.splits if_splits)
  then have "s = [c] @ cs \<and> (\<forall>c\<in>set [c]. \<exists>cl'\<in>set (classes (Sym cl)). cmatch cl' c) \<and> k cs = Some x"
    by simp
  then show ?case by blast
next
  case (Seq a b)
  from Seq.prems have "bt a s (\<lambda>s'. bt b s' k) = Some x" by simp
  from Seq.IH(1)[OF this] obtain p1 q1 where
    1: "s = p1 @ q1" "\<forall>c\<in>set p1. \<exists>cl\<in>set (classes a). cmatch cl c" "bt b q1 k = Some x"
    by blast
  from Seq.IH(2)[OF 1(3)] obtain p2 q2 where
    2: "q1 = p2 @ q2" "\<forall>c\<in>set p2. \<exists>cl\<in>set (classes b). cmatch cl c" "k q2 = Some x"
    by blast
  from 1 2 have "s = (p1 @ p2) @ q2 \<and>
      (\<forall>c\<in>set (p1 @ p2). \<exists>cl\<in>set (classes (Seq a b)). cmatch cl c) \<and> k q2 = Some x"
    by auto
  then show ?case by blast
next
  case (Alt a b)
  then have "bt a s k = Some x \<or> bt b s k = Some x" by (auto split: option.splits)
  then show ?case
  proof
    assume "bt a s k = Some x"
    from Alt.IH(1)[OF this] show ?thesis by fastforce
  next
    assume "bt b s k = Some x"
    from Alt.IH(2)[OF this] show ?thesis by fastforce
  qed
next
  case (Opt a)
  then have "bt a s k = Some x \<or> k s = Some x" by (auto split: option.splits)
  then show ?case
  proof
    assume "bt a s k = Some x"
    from Opt.IH[OF this] show ?thesis by fastforce
  next
    assume "k s = Some x"
    then have "s = [] @ s \<and> (\<forall>c\<in>set []. \<exists>cl\<in>set (classes (Opt a)). cmatch cl c) \<and> k s = Some x"
      by simp
    then show ?thesis by blast
  qed
next
  case (Star cl)
  then have "star_bt (cmatch cl) s k = Some x" by simp
  from star_bt_sound[OF this] show ?case by fastforce
next
  case (Plus cl)
  then obtain c cs where s: "s = c # cs" "cmatch cl c" "star_bt (cmatch cl) cs k = Some x"
    by (auto split: list.splits if_splits)
  from star_bt_sound[OF s(3)] obtain p q where
    "cs = p @ q" "\<forall>c\<in>set p. cmatch cl c" "k q = Some x" by blast
  with s have "s = (c # p) @ q \<and> (\<forall>c\<in>set (c # p). \<exists>cl'\<in>set (classes (Plus cl)). cmatch cl' c)
      \<and> k q = Some x" by simp
  then show ?case by blast
next
  case Eol
  then have "k s = Some x" by (auto split: if_splits)
  then have "s = [] @ s \<and> (\<forall>c\<in>set []. \<exists>cl\<in>set (classes Eol). cmatch cl c) \<and> k s = Some x"
    by simp
  then show ?case by blast
qed

lemma space_not_digit: "is_space c \<Longrightarrow> \<not> is_digit c"
  by (auto simp: is_space_def is_digit_def)

lemma digit_not_punct: "is_digit c \<Longrightarrow> c \<notin> set ''.)''"
  by (auto simp: is_digit_def)

lemma punct_not_space: "c \<in> set ''.)'' \<Longrightarrow> \<not> is_space c"
  by (auto simp: is_space_def)

lemma cmatch_Space [simp]: "cmatch Space = is_space"
  by (rule ext) simp

lemma cmatch_Digit [simp]: "cmatch Digit = is_digit"
  by (rule ext) simp

lemma bt_numbering:
  "bt numbering s k = (case after_number s of Some cs \<Rightarrow> star_bt is_space cs k | None \<Rightarrow> None)"
proof -
  let ?k3 = "\<lambda>b. case b of [] \<Rightarrow> None
                | c # cs \<Rightarrow> if c = CHR ''.'' \<or> c = CHR '')'' then star_bt is_space cs k else None"
  let ?k2 = "\<lambda>a. case a of [] \<Rightarrow> None
                | d # r \<Rightarrow> if is_digit d then star_bt is_digit r ?k3 else None"
  have "bt numbering s k = star_bt is_space s ?k2"
    by (simp add: numbering_def cong: list.case_cong if_cong)
  also have "\<dots> = ?k2 (dropWhile is_space s)"
    by (rule star_bt_det) (simp add: space_not_digit)
  also have "\<dots> = (case after_number s of Some cs \<Rightarrow> star_bt is_space cs k | None \<Rightarrow> None)"
  proof (cases "dropWhile is_space s")
    case Nil
    then show ?thesis by (simp add: after_number_def del: dropWhile_eq_Nil_conv)
  next
    case (Cons d r)
    have det: "star_bt is_digit r ?k3 = ?k3 (dropWhile is_digit r)"
      by (rule star_bt_det) (use digit_not_punct in auto)
    show ?thesis
      unfolding Cons after_number_def
      by (simp add: det split: list.splits del: dropWhile_eq_Nil_conv)
  qed
  finally show ?thesis .
qed

lemma sub_numbering_eq:
  "sub_numbering s = (case after_number s of Some cs \<Rightarrow> dropWhile is_space cs | None \<Rightarrow> s)"
  by (simp add: sub_numbering_def bt_numbering star_bt_Some split: option.splits)

lemma after_number_dropWhile [simp]: "after_number (dropWhile is_space s) = after_number s"
  by (simp add: after_number_def)

lemma to_lower_eq_uncased: "\<not> is_lower x \<Longrightarrow> \<not> is_upper x \<Longrightarrow> to_lower c = x \<longleftrightarrow> c = x"
  using to_lower_cases[of c] by auto

lemma punct_uncased:
  "\<not> is_lower CHR ''.'' \<and> \<not> is_upper CHR ''.'' \<and> \<not> is_lower CHR '')'' \<and> \<not> is_upper CHR '')''"
  by code_simp

lemma to_lower_dot [simp]: "to_lower c = CHR ''.'' \<longleftrightarrow> c = CHR ''.''"
  by (rule to_lower_eq_uncased) (simp_all add: punct_uncased)

lemma to_lower_paren [simp]: "to_lower c = CHR '')'' \<longleftrightarrow> c = CHR '')''"
  by (rule to_lower_eq_uncased) (simp_all add: punct_uncased)

lemma lower_Cons [simp]: "lower (x # xs) = to_lower x # lower xs"
  by (simp add: lower_def)

lemma lower_Nil [simp]: "lower [] = []"
  by (simp add: lower_def)

lemma after_number_lower: "after_number (lower s) = map_option lower (after_number s)"
proof (cases "dropWhile is_space s")
  case Nil
  then show ?thesis
    by (simp add: after_number_def lower_dropWhile_space del: dropWhile_eq_Nil_conv)
next
  case (Cons d r)
  show ?thesis
  proof (cases "dropWhile is_digit r")
    case Nil
    with Cons show ?thesis
      by (simp add: after_number_def lower_dropWhile_space lower_dropWhile_digit
            del: dropWhile_eq_Nil_conv)
  next
    case c: (Cons c cs)
    with Cons show ?thesis
      by (simp add: after_number_def lower_dropWhile_space lower_dropWhile_digit
            del: dropWhile_eq_Nil_conv)
  qed
qed

lemma after_number_rstrip: "after_number (rstrip s) = map_option rstrip (after_number s)"
proof (cases "dropWhile is_space s")
  case Nil
  then show ?thesis by (simp add: after_number_def dropWhile_space_rstrip del: dropWhile_eq_Nil_conv)
next
  case (Cons d r)
  then have nd: "\<not> is_space d" by (metis hd_dropWhile list.sel(1) list.distinct(1))
  have dr: "dropWhile is_digit (rstrip r) = rstrip (dropWhile is_digit r)"
    by (rule dropWhile_rstrip) (use space_not_digit in blast)
  show ?thesis
  proof (cases "dropWhile is_digit r")
    case Nil
    with Cons nd show ?thesis
      by (simp add: after_number_def dropWhile_space_rstrip rstrip_Cons dr del: dropWhile_eq_Nil_conv)
  next
    case c: (Cons c cs)
    with Cons nd show ?thesis
      by (auto simp: after_number_def dropWhile_space_rstrip rstrip_Cons dr punct_not_space
            simp del: dropWhile_eq_Nil_conv)
  qed
qed

lemma after_number_strip_lower:
  "after_number (strip (lower s)) = map_option (\<lambda>cs. rstrip (lower cs)) (after_number s)"
  by (simp add: strip_rstrip after_number_rstrip after_number_lower option.map_comp comp_def)

lemma suffix_of_eol: "p @ q = [] \<or> p @ q = [c] \<Longrightarrow> q = [] \<or> q = [c]"
  by (cases p) auto

lemma bt_eol:
  "bt r s k = Some x \<Longrightarrow> ends_eol r \<Longrightarrow> \<exists>q. (q = [] \<or> q = [CHR 0x0A]) \<and> k q = Some x \<and>
      (\<exists>p. s = p @ q \<and> (\<forall>c\<in>set p. \<exists>cl\<in>set (classes r). cmatch cl c))"
proof (induction r arbitrary: s k)
  case (Seq a b)
  from Seq.prems have ab: "bt a s (\<lambda>s'. bt b s' k) = Some x" by simp
  show ?case
  proof (cases "ends_eol a")
    case True
    from Seq.IH(1)[OF ab True] obtain q1 p1 where
      1: "q1 = [] \<or> q1 = [CHR 0x0A]" "bt b q1 k = Some x" "s = p1 @ q1"
         "\<forall>c\<in>set p1. \<exists>cl\<in>set (classes a). cmatch cl c" by blast
    from bt_sound[OF 1(2)] obtain p2 q2 where
      2: "q1 = p2 @ q2" "\<forall>c\<in>set p2. \<exists>cl\<in>set (classes b). cmatch cl c" "k q2 = Some x" by blast
    from 1(1) 2(1) have "p2 @ q2 = [] \<or> p2 @ q2 = [CHR 0x0A]" by simp
    then have "q2 = [] \<or> q2 = [CHR 0x0A]" by (rule suffix_of_eol)
    moreover from 1(3,4) 2(1,2) have "s = (p1 @ p2) @ q2 \<and>
        (\<forall>c\<in>set (p1 @ p2). \<exists>cl\<in>set (classes (Seq a b)). cmatch cl c)" by auto
    ultimately show ?thesis using 2(3) by blast
  next
    case False
    with Seq.prems have eb: "ends_eol b" by simp
    from bt_sound[OF ab] obtain p1 q1 where
      1: "s = p1 @ q1" "\<forall>c\<in>set p1. \<exists>cl\<in>set (classes a). cmatch cl c" "bt b q1 k = Some x"
      by blast
    from Seq.IH(2)[OF 1(3) eb] obtain q2 p2 where
      2: "q2 = [] \<or> q2 = [CHR 0x0A]" "k q2 = Some x" "q1 = p2 @ q2"
         "\<forall>c\<in>set p2. \<exists>cl\<in>set (classes b). cmatch cl c" by blast
    from 1(1,2) 2(3,4) have "s = (p1 @ p2) @ q2 \<and>
        (\<forall>c\<in>set (p1 @ p2). \<exists>cl\<in>set (classes (Seq a b)). cmatch cl c)" by auto
    with 2(1,2) show ?thesis by blast
  qed
next
  case (Alt a b)
  from Alt.prems(2) have e: "ends_eol a" "ends_eol b" by simp_all
  from Alt.prems(1) have "bt a s k = Some x \<or> bt b s k = Some x"
    by (simp split: option.splits)
  then show ?case
  proof
    assume "bt a s k = Some x"
    from Alt.IH(1)[OF this e(1)] obtain q p where
      "q = [] \<or> q = [CHR 0x0A]" "k q = Some x" "s = p @ q"
      "\<forall>c\<in>set p. \<exists>cl\<in>set (classes a). cmatch cl c" by blast
    then have "(q = [] \<or> q = [CHR 0x0A]) \<and> k q = Some x \<and> (s = p @ q \<and>
       (\<forall>c\<in>set p. \<exists>cl\<in>set (classes (Alt a b)). cmatch cl c))" by auto
    then show ?thesis by blast
  next
    assume "bt b s k = Some x"
    from Alt.IH(2)[OF this e(2)] obtain q p where
      "q = [] \<or> q = [CHR 0x0A]" "k q = Some x" "s = p @ q"
      "\<forall>c\<in>set p. \<exists>cl\<in>set (classes b). cmatch cl c" by blast
    then have "(q = [] \<or> q = [CHR 0x0A]) \<and> k q = Some x \<and> (s = p @ q \<and>
       (\<forall>c\<in>set p. \<exists>cl\<in>set (classes (Alt a b)). cmatch cl c))" by auto
    then show ?thesis by blast
  qed
next
  case Eol
  then have "(s = [] \<or> s = [CHR 0x0A]) \<and> k s = Some x" by (auto split: if_splits)
  then have "(s = [] \<or> s = [CHR 0x0A]) \<and> k s = Some x \<and>
     (\<exists>p. s = p @ s \<and> (\<forall>c\<in>set p. \<exists>cl\<in>set (classes Eol). cmatch cl c))" by simp
  then show ?case by blast
qed simp_all

lemma plain_class_match: "plain_class cl \<Longrightarrow> cmatch cl c \<Longrightarrow> is_ascii_lower c \<or> is_space c"
  by (cases cl) auto

lemma section_patterns_plain:
  "list_all (\<lambda>patt. ends_eol patt \<and> list_all plain_class (classes patt)) SECTION_PATTERNS"
  by code_simp

lemma newline_is_space: "is_space (CHR 0x0A)"
  by (simp add: is_space_def)

lemma section_pattern_chars:
  assumes "matches_section_pattern s"
  shows "\<forall>c\<in>set s. is_ascii_lower c \<or> is_space c"
proof -
  from assms obtain patt where patt: "patt \<in> set SECTION_PATTERNS" "re_match patt s"
    by (auto simp: matches_section_pattern_def list_ex_iff)
  with section_patterns_plain have pl: "ends_eol patt" "\<forall>cl\<in>set (classes patt). plain_class cl"
    by (auto simp: list_all_iff)
  from patt(2) obtain x where "bt patt s (\<lambda>_. Some ()) = Some x"
    by (auto simp: re_match_def)
  from bt_eol[OF this pl(1)] obtain q p where
    q: "q = [] \<or> q = [CHR 0x0A]" "s = p @ q" "\<forall>c\<in>set p. \<exists>cl\<in>set (classes patt). cmatch cl c"
    by blast
  from q(3) pl(2) have "\<forall>c\<in>set p. is_ascii_lower c \<or> is_space c"
    using plain_class_match by blast
  moreover from q(1) have "\<forall>c\<in>set q. is_space c" using newline_is_space by auto
  ultimately show ?thesis using q(2) by auto
qed

lemma no_empty_heading: "\<not> matches_section_pattern []"
  by code_simp

subsection \<open>Heading detection\<close>

lemma numbered_eq:
  "numbered l = (case after_number l of Some cs \<Rightarrow> star_bt is_space cs group_to_eol | None \<Rightarrow> None)"
  unfolding numbered_def group_to_eol_def by (rule bt_numbering)

lemma group_to_eol_sound:
  assumes "group_to_eol u = Some g"
  shows "\<exists>rest. u = g @ rest \<and> (rest = [] \<or> rest = [CHR 0x0A])"
proof -
  define k where "k = (\<lambda>s2. bt Eol s2 (\<lambda>_. Some (take (length u - length s2) u)))"
  have gk: "group_to_eol u = bt (Plus AnyChar) u k"
    by (simp only: group_to_eol_def k_def)
  show ?thesis
  proof (cases u)
    case Nil
    with assms gk show ?thesis by simp
  next
    case (Cons c cs)
    with assms gk have st: "star_bt (cmatch AnyChar) cs k = Some g"
      by (simp split: if_splits)
    from star_bt_sound[OF st] obtain p q where pq: "cs = p @ q" "k q = Some g" by blast
    from pq(2) have q: "q = [] \<or> q = [CHR 0x0A]" and g: "g = take (length u - length q) u"
      by (auto simp: k_def split: if_splits)
    from Cons pq(1) g have "u = g @ q" by simp
    with q show ?thesis by blast
  qed
qed


lemma numbered_Some:
  assumes "numbered l = Some g"
  shows "\<exists>cs. after_number l = Some cs \<and> strip g = strip cs"
proof -
  from assms obtain cs where cs: "after_number l = Some cs"
    and st: "star_bt is_space cs group_to_eol = Some g"
    by (auto simp: numbered_eq split: option.splits)
  from star_bt_sound[OF st] obtain p q where
    pq: "cs = p @ q" "\<forall>c\<in>set p. is_space c" "group_to_eol q = Some g" by blast
  from group_to_eol_sound[OF pq(3)] obtain rest where
    r: "q = g @ rest" "rest = [] \<or> rest = [CHR 0x0A]" by blast
  from r(2) have "\<forall>c\<in>set rest. is_space c" using newline_is_space by auto
  then have "strip (g @ rest) = strip g" by (rule strip_append_space)
  moreover from pq(2) have "strip (p @ q) = strip q" by (rule strip_space_append)
  ultimately have "strip g = strip cs" using pq(1) r(1) by simp
  with cs show ?thesis by blast
qed




lemma after_number_set: "after_number s = Some cs \<Longrightarrow> set cs \<subseteq> set s"
proof -
  assume a: "after_number s = Some cs"
  then obtain d r where dr: "dropWhile is_space s = d # r"
    by (auto simp: after_number_def split: list.splits simp del: dropWhile_eq_Nil_conv)
  with a obtain c where c: "dropWhile is_digit r = c # cs"
    by (auto simp: after_number_def split: list.splits if_splits simp del: dropWhile_eq_Nil_conv)
  have "set cs \<subseteq> set (dropWhile is_digit r)" using c by auto
  also have "\<dots> \<subseteq> set r" by (auto dest: set_dropWhileD)
  also have "\<dots> \<subseteq> set (dropWhile is_space s)" using dr by auto
  also have "\<dots> \<subseteq> set s" by (auto dest: set_dropWhileD)
  finally show ?thesis .
qed

lemma after_number_digit:
  "after_number s = Some cs \<Longrightarrow> \<exists>d\<in>set s. is_digit d \<and> \<not> is_space d"
proof -
  assume a: "after_number s = Some cs"
  then obtain d r where dr: "dropWhile is_space s = d # r" "is_digit d"
    by (auto simp: after_number_def split: list.splits if_splits simp del: dropWhile_eq_Nil_conv)
  then have "d \<in> set s" by (metis list.set_intros(1) set_dropWhileD)
  with dr(2) show ?thesis using space_not_digit by blast
qed





text \<open>The candidate that is matched against the patterns, when the line is numbered and
  when it is not.\<close>

lemma candidate_plain:
  assumes "after_number text = None"
  shows "heading_candidate text = strip (lower (sub_numbering text))"
proof -
  from assms have "after_number (strip (lower text)) = None"
    by (simp add: after_number_strip_lower)
  then have "numbered (strip (lower text)) = None" by (simp add: numbered_eq)
  with assms show ?thesis by (simp add: heading_candidate_def sub_numbering_eq)
qed

lemma sub_numbering_numbered:
  assumes "after_number text = Some cs0"
  shows "strip (lower (sub_numbering text)) = strip (lower cs0)"
  using assms
  by (simp add: sub_numbering_eq lower_dropWhile_space[symmetric])

lemma detect_heading_whole_line:
  assumes "detect_heading text = Some h"
  shows "whole_line_heading text"
proof -
  from assms have m: "matches_section_pattern (heading_candidate text)"
    by (auto simp: detect_heading_def split: if_splits)
  let ?l = "strip (lower text)"
  show ?thesis
  proof (cases "after_number text")
    case None
    with m show ?thesis by (simp add: whole_line_heading_def candidate_plain)
  next
    case (Some cs0)
    then have al: "after_number ?l = Some (rstrip (lower cs0))"
      by (simp add: after_number_strip_lower)
    show ?thesis
    proof (cases "numbered ?l")
      case None
      with m have "matches_section_pattern ?l" by (simp add: heading_candidate_def)
      then have "\<forall>c\<in>set ?l. is_ascii_lower c \<or> is_space c" by (rule section_pattern_chars)
      moreover from after_number_digit[OF al] obtain d where
        "d \<in> set ?l" "is_digit d" "\<not> is_space d" by blast
      ultimately show ?thesis using is_lower_props ascii_lower_is_lower by blast
    next
      case g: (Some g)
      from numbered_Some[OF g] al have "strip g = strip (rstrip (lower cs0))" by auto
      then have "strip g = strip (lower cs0)" by simp
      with m g Some show ?thesis
        by (simp add: whole_line_heading_def heading_candidate_def sub_numbering_numbered)
    qed
  qed
qed





lemma detect_heading_nonempty: "detect_heading text = Some h \<Longrightarrow> h \<noteq> []"
proof -
  assume a: "detect_heading text = Some h"
  then have h: "h = title (strip (sub_numbering text))"
    by (auto simp: detect_heading_def split: if_splits)
  from detect_heading_whole_line[OF a] have "strip (lower (sub_numbering text)) \<noteq> []"
    using no_empty_heading by (auto simp: whole_line_heading_def)
  then have "lower (strip (sub_numbering text)) \<noteq> []" by (simp add: lower_strip)
  then have "strip (sub_numbering text) \<noteq> []" by (auto simp: lower_def)
  with h show ?thesis by (simp add: title_def)
qed


section \<open>Lemmas on the walks of the two parsers\<close>

subsection \<open>The handler before the call does not matter\<close>

lemma flush_last_text:
  "flush (w\<lparr>last_text := x\<rparr>) = map_sum id (\<lambda>w'. w'\<lparr>last_text := x\<rparr>) (flush w)"
  by (auto simp: flush_def append_element_def Let_def split: option.splits)

lemma enter_section_last_text:
  "enter_section n (w\<lparr>last_text := x\<rparr>) = (enter_section n w)\<lparr>last_text := x\<rparr>"
  by (simp add: enter_section_def)

lemma text_step_last_text:
  "text_step (w\<lparr>last_text := x\<rparr>) l = map_sum id (\<lambda>w'. w'\<lparr>last_text := x\<rparr>) (text_step w l)"
  by (cases "flush w")
     (auto simp: text_step_def Let_def flush_last_text enter_section_last_text split: option.splits)

lemma text_loop_last_text:
  "text_loop (w\<lparr>last_text := x\<rparr>) ls = map_prod (\<lambda>w'. w'\<lparr>last_text := x\<rparr>) id (text_loop w ls)"
proof (induction ls arbitrary: w)
  case Nil
  then show ?case by simp
next
  case (Cons l ls)
  then show ?case by (cases "text_step w l") (simp_all add: text_step_last_text)
qed

lemma text_start_last_text: "text_start h = (text_start init_handler)\<lparr>last_text := last_text h\<rparr>"
  by (simp add: text_start_def init_handler_def)

lemma cleanup_last_text: "cleanup (h\<lparr>last_text := x\<rparr>) = (cleanup h)\<lparr>last_text := x\<rparr>"
  by (simp add: cleanup_def Let_def)

lemma handler_of_last_text: "handler_of (w\<lparr>last_text := x\<rparr>) = (handler_of w)\<lparr>last_text := x\<rparr>"
  by (simp add: handler_of_def)

lemma parse_text_any_handler:
  "parse_text h t = map_prod (\<lambda>h'. h'\<lparr>last_text := last_text h\<rparr>) id (parse_text init_handler t)"
proof -
  obtain w e where l: "text_loop (text_start init_handler) (splitlines t) = (w, e)"
    by (cases "text_loop (text_start init_handler) (splitlines t)")
  then have l': "text_loop (text_start h) (splitlines t) = (w\<lparr>last_text := last_text h\<rparr>, e)"
    by (subst text_start_last_text) (simp add: text_loop_last_text)
  show ?thesis
  proof (cases e)
    case (Some x)
    with l l' show ?thesis by (simp add: parse_text_def handler_of_last_text)
  next
    case None
    with l l' show ?thesis
      by (cases "flush w")
         (simp_all add: parse_text_def handler_of_last_text flush_last_text cleanup_last_text Let_def)
  qed
qed

subsection \<open>Events applied to the sections\<close>

lemma dict_append_keys: "dict_append k e secs = Some secs' \<Longrightarrow> map fst secs' = map fst secs"
  by (induction secs arbitrary: secs') (auto split: if_splits)

lemma dict_append_Some: "k \<in> set (map fst secs) \<Longrightarrow> \<exists>secs'. dict_append k e secs = Some secs'"
proof (induction secs)
  case Nil
  then show ?case by simp
next
  case (Cons p ps)
  show ?case
  proof (cases "fst p = k")
    case True
    then show ?thesis by (cases p) simp
  next
    case False
    with Cons.prems have "k \<in> set (map fst ps)" by auto
    from Cons.IH[OF this] obtain secs' where "dict_append k e ps = Some secs'" by blast
    with False show ?thesis by (cases p) simp
  qed
qed

lemma dict_append_None: "k \<notin> set (map fst secs) \<Longrightarrow> dict_append k e secs = None"
  by (induction secs) auto

lemma dict_append_elems:
  "dict_append k e secs = Some secs' \<Longrightarrow>
     elems secs' n = (if n = k then elems secs n @ [e] else elems secs n)"
  by (induction secs arbitrary: secs') (auto simp: elems_def split: if_splits)

lemma dict_set_new: "k \<notin> set (map fst secs) \<Longrightarrow> dict_set k v secs = secs @ [(k, v)]"
  by (induction secs) auto

lemma elems_new: "elems (secs @ [(k, [])]) n = elems secs n"
  by (cases "map_of secs n") (auto simp: elems_def map_add_def)

lemma filed_under_Enter [simp]: "filed_under n cur (Enter m # evs) = filed_under n m evs"
  by (simp add: filed_under_def)

lemma filed_under_Put [simp]:
  "filed_under n cur (Put e # evs) = (if cur = n then e # filed_under n cur evs else filed_under n cur evs)"
  by (simp add: filed_under_def)

lemma filed_under_Nil [simp]: "filed_under n cur [] = []"
  by (simp add: filed_under_def)


lemma first_seen_set: "set (first_seen acc ns) = set acc \<union> set ns"
  by (induction ns arbitrary: acc) auto

lemma apply_events_wf:
  "wf_core (secs, ord, cur) \<Longrightarrow>
   \<exists>secs' cur'. apply_events evs (secs, ord, cur) = Some (secs', first_seen ord (entered evs), cur') \<and>
     wf_core (secs', first_seen ord (entered evs), cur') \<and>
     (\<forall>n. elems secs' n = elems secs n @ filed_under n cur evs)"
proof (induction evs arbitrary: secs ord cur)
  case Nil
  then show ?case by simp
next
  case (Cons ev evs)
  show ?case
  proof (cases ev)
    case (Enter n)
    show ?thesis
    proof (cases "has_key secs n")
      case True
      with Cons.prems have wf: "wf_core (secs, ord, n)" and n: "n \<in> set ord"
        by (auto simp: wf_core_def has_key_def)
      from Cons.IH[OF wf] Enter True n show ?thesis by simp
    next
      case False
      with Cons.prems have n: "n \<notin> set (map fst secs)" "n \<notin> set ord"
        by (auto simp: wf_core_def has_key_def)
      with Cons.prems have wf: "wf_core (secs @ [(n, [])], ord @ [n], n)"
        by (auto simp: wf_core_def)
      from Cons.IH[OF wf] Enter False n show ?thesis
        by (simp add: dict_set_new elems_new)
    qed
  next
    case (Put e)
    from Cons.prems have "cur \<in> set (map fst secs)" by (auto simp: wf_core_def)
    then obtain secs1 where s1: "dict_append cur e secs = Some secs1"
      using dict_append_Some by blast
    with Cons.prems have wf: "wf_core (secs1, ord, cur)"
      by (auto simp: wf_core_def dict_append_keys)
    from Cons.IH[OF wf] obtain secs' cur' where
      r: "apply_events evs (secs1, ord, cur) = Some (secs', first_seen ord (entered evs), cur')"
         "wf_core (secs', first_seen ord (entered evs), cur')"
         "\<forall>n. elems secs' n = elems secs1 n @ filed_under n cur evs" by blast
    from r(3) s1 have "\<forall>n. elems secs' n = elems secs n @ filed_under n cur (Put e # evs)"
      by (simp add: dict_append_elems)
    with r(1,2) Put s1 show ?thesis by simp
  qed
qed

lemma alist_by_keys:
  "distinct (map fst secs) \<Longrightarrow> secs = map (\<lambda>n. (n, elems secs n)) (map fst secs)"
proof (induction secs)
  case Nil
  then show ?case by simp
next
  case (Cons p ps)
  then have IH: "ps = map (\<lambda>n. (n, elems ps n)) (map fst ps)" by simp
  from Cons.prems have "fst p \<notin> set (map fst ps)" by simp
  then have "\<forall>n\<in>set (map fst ps). n \<noteq> fst p" by blast
  then have "\<forall>n\<in>set (map fst ps). elems (p # ps) n = elems ps n"
    by (cases p) (simp add: elems_def)
  then have eq: "map (\<lambda>n. (n, elems (p # ps) n)) (map fst ps) = map (\<lambda>n. (n, elems ps n)) (map fst ps)"
    by (intro map_cong) auto
  have hd: "(fst p, elems (p # ps) (fst p)) = p" by (cases p) (simp add: elems_def)
  have "map (\<lambda>n. (n, elems (p # ps) n)) (map fst (p # ps))
      = (fst p, elems (p # ps) (fst p)) # map (\<lambda>n. (n, elems (p # ps) n)) (map fst ps)"
    by simp
  also have "\<dots> = p # map (\<lambda>n. (n, elems ps n)) (map fst ps)"
    by (simp only: hd eq)
  also have "\<dots> = p # ps" using IH by simp
  finally show ?case by simp
qed

lemma cleanup_events:
  assumes "apply_events evs ([(''Uncategorized'', [])], [''Uncategorized''], ''Uncategorized'') = Some c"
  shows "cleanup_core c = (model_of evs, model_order evs)"
proof -
  let ?U = "''Uncategorized''"
  have wf0: "wf_core ([(?U, [])], [?U], ?U)" by (simp add: wf_core_def)
  from apply_events_wf[OF wf0, of evs] assms obtain secs cur where
    c: "c = (secs, first_seen [?U] (entered evs), cur)"
    and wf: "wf_core (secs, first_seen [?U] (entered evs), cur)"
    and el: "\<forall>n. elems secs n = elems [(?U, [])] n @ filed_under n ?U evs" by auto
  let ?ord = "first_seen [?U] (entered evs)"
  let ?E = "\<lambda>n. filed_under n ?U evs"
  have "\<And>n. elems [(?U, [])] n = []" by (simp add: elems_def)
  with el have el': "\<And>n. elems secs n = ?E n" by simp
  from wf have k: "map fst secs = ?ord" "distinct ?ord" by (auto simp: wf_core_def)
  then have "secs = map (\<lambda>n. (n, elems secs n)) ?ord"
    using alist_by_keys[of secs] by simp
  then have secs: "secs = map (\<lambda>n. (n, ?E n)) ?ord" by (simp add: el')
  have f: "filter (\<lambda>(k, v). v \<noteq> []) secs = model_of evs"
    by (subst secs) (simp add: model_of_def model_order_def filter_map comp_def)
  have "filter (has_key (model_of evs)) ?ord = model_order evs"
    unfolding model_order_def
    by (rule filter_cong) (auto simp: has_key_def model_of_def model_order_def comp_def)
  with f c show ?thesis by (simp add: cleanup_core_def)
qed

lemma apply_events_start:
  "\<exists>c. apply_events evs ([(''Uncategorized'', [])], [''Uncategorized''], ''Uncategorized'') = Some c"
proof -
  have "wf_core ([(''Uncategorized'', [])], [''Uncategorized''], ''Uncategorized'')"
    by (simp add: wf_core_def)
  from apply_events_wf[OF this, of evs] show ?thesis by blast
qed

lemma model_of_keys: "map fst (model_of evs) = model_order evs"
  by (simp add: model_of_def comp_def)



lemma model_of_elems:
  "(n, els) \<in> set (model_of evs) \<Longrightarrow> els = filed_under n ''Uncategorized'' evs"
  by (auto simp: model_of_def)

lemma filed_names: "(n, e) \<in> set (filed cur evs) \<Longrightarrow> n = cur \<or> n \<in> set (entered evs)"
  by (induction cur evs rule: filed.induct) auto

lemma model_order_iff:
  "n \<in> set (model_order evs) \<longleftrightarrow> filed_under n ''Uncategorized'' evs \<noteq> []"
proof -
  have "n \<in> set (first_seen [''Uncategorized''] (entered evs))"
    if "filed_under n ''Uncategorized'' evs \<noteq> []"
  proof -
    from that obtain e where "(n, e) \<in> set (filed ''Uncategorized'' evs)"
      by (auto simp: filed_under_def filter_empty_conv)
    from filed_names[OF this] show ?thesis by (auto simp: first_seen_set)
  qed
  then show ?thesis by (auto simp: model_order_def)
qed

subsection \<open>The walk over a text, as events\<close>




lemma apply_events_append:
  "apply_events (xs @ ys) c =
     (case apply_events xs c of None \<Rightarrow> None | Some c' \<Rightarrow> apply_events ys c')"
proof (induction xs arbitrary: c)
  case Nil
  then show ?case by simp
next
  case (Cons ev xs)
  obtain secs ord cur where c: "c = (secs, ord, cur)" by (cases c)
  show ?case
  proof (cases ev)
    case (Enter n)
    with Cons c show ?thesis by simp
  next
    case (Put e)
    with Cons c show ?thesis by (cases "dict_append cur e secs") simp_all
  qed
qed



lemma core_buffer [simp]: "core (w\<lparr>buffer := b\<rparr>) = core w"
  by (simp add: core_def)



lemma cleanup_handler_of:
  "cleanup (handler_of w) =
     \<lparr>sections = fst (cleanup_core (core w)), detected_order = snd (cleanup_core (core w)),
      last_text = last_text w\<rparr>"
  by (simp add: cleanup_def handler_of_def cleanup_core_def core_def Let_def)


subsection \<open>The image map\<close>

lemma extract_image_eq:
  "extract_image env dir m rel =
     (case extracted env dir rel of Some q \<Rightarrow> m(rId rel \<mapsto> q) | None \<Rightarrow> m)"
  by (simp add: extract_image_def extracted_def Let_def split: option.splits)

lemma extract_image_at:
  "extract_image env dir m rel rid =
     (case extracted env dir rel of
        Some q \<Rightarrow> if rId rel = rid then Some q else m rid
      | None \<Rightarrow> m rid)"
  by (simp add: extract_image_eq split: option.splits)

lemma saved_path_foldl:
  "foldl (extract_image env dir) m rs rid =
     (case saved_path env dir rs rid of Some q \<Rightarrow> Some q | None \<Rightarrow> m rid)"
proof (induction rs arbitrary: m)
  case Nil
  then show ?case by simp
next
  case (Cons r rs)
  have ih: "foldl (extract_image env dir) (extract_image env dir m r) rs rid =
     (case saved_path env dir rs rid of
        Some q \<Rightarrow> Some q | None \<Rightarrow> extract_image env dir m r rid)"
    by (rule Cons.IH)
  have at: "extract_image env dir m r rid =
     (case extracted env dir r of
        Some q \<Rightarrow> if rId r = rid then Some q else m rid
      | None \<Rightarrow> m rid)"
    by (rule extract_image_at)
  have "(case saved_path env dir rs rid of
           Some q \<Rightarrow> Some q | None \<Rightarrow> extract_image env dir m r rid) =
        (case saved_path env dir (r # rs) rid of Some q \<Rightarrow> Some q | None \<Rightarrow> m rid)"
    unfolding at by (simp split: option.splits)
  with ih show ?case by (simp only: foldl_Cons)
qed

lemma docx_image_map_eq: "extract_all_images env doc (image_dir env) = docx_image_map env doc"
  by (rule ext) (simp add: extract_all_images_def docx_image_map_def saved_path_foldl
        split: option.splits)

lemma saved_path_sound:
  "saved_path env dir rs rid = Some q \<Longrightarrow>
     \<exists>rel\<in>set rs. rId rel = rid \<and> extracted env dir rel = Some q"
  by (induction rs) (auto split: option.splits if_splits)

lemma saved_path_failed:
  assumes "\<forall>rel\<in>set rs. rId rel = rid \<longrightarrow> extracted env dir rel = None"
  shows "saved_path env dir rs rid = None"
proof (cases "saved_path env dir rs rid")
  case None
  then show ?thesis .
next
  case (Some q)
  from saved_path_sound[OF this] assms show ?thesis by auto
qed

lemma saved_path_distinct:
  "distinct (map rId rs) \<Longrightarrow> rel \<in> set rs \<Longrightarrow> saved_path env dir rs (rId rel) = extracted env dir rel"
proof (induction rs)
  case Nil
  then show ?case by simp
next
  case (Cons r rs)
  show ?case
  proof (cases "rel = r")
    case True
    have "extracted env dir x = None" if "x \<in> set rs" "rId x = rId r" for x
    proof -
      from that have "rId r \<in> rId ` set rs" by (metis imageI)
      with Cons.prems(1) show ?thesis by simp
    qed
    then have "\<forall>x\<in>set rs. rId x = rId r \<longrightarrow> extracted env dir x = None" by blast
    then have "saved_path env dir rs (rId r) = None" by (rule saved_path_failed)
    with True show ?thesis by simp
  next
    case False
    with Cons.prems have m: "rel \<in> set rs" and d: "distinct (map rId rs)" and n: "rId r \<noteq> rId rel"
      by auto
    from Cons.IH[OF d m] n show ?thesis by (simp split: option.splits)
  qed
qed

lemma docx_image_map_sound:
  "docx_image_map env doc rid = Some q \<Longrightarrow>
     \<exists>rel\<in>set (rels doc). rId rel = rid \<and> extracted env (image_dir env) rel = Some q"
  unfolding docx_image_map_def by (rule saved_path_sound)

subsection \<open>The walk over a document, as events\<close>

lemma detect_heading_Nil [simp]: "detect_heading [] = None"
  by (simp add: detect_heading_def)

lemma append_element_sim:
  "case append_element e w of
     Inl x \<Rightarrow> apply_events (Put e # evs) (core w) = None
   | Inr w' \<Rightarrow> apply_events (Put e # evs) (core w) = apply_events evs (core w') \<and>
              last_text w' = last_text w"
  by (cases "dict_append (current_section w) e (sections w)")
     (simp_all add: append_element_def core_def)

lemma append_all_sim:
  "ok_core (append_all w es) = apply_events (map Put es) (core w) \<and>
   (snd (append_all w es) = None \<longrightarrow> last_text (fst (append_all w es)) = last_text w)"
proof (induction es arbitrary: w)
  case Nil
  then show ?case by simp
next
  case (Cons e es)
  show ?case
  proof (cases "append_element e w")
    case (Inl x)
    with append_element_sim[where e=e and w=w and evs="map Put es"] show ?thesis by simp
  next
    case (Inr w')
    with append_element_sim[where e=e and w=w and evs="map Put es"] Cons[of w'] show ?thesis by simp
  qed
qed

lemma core_last_text [simp]: "core (w\<lparr>last_text := x\<rparr>) = core w"
  by (simp add: core_def)

lemma node_images_refs:
  "node_images m node = map (\<lambda>(rid, alt). Image (m rid) None alt False) (node_refs node)"
proof -
  have "concat (map (\<lambda>(attr, val).
           if contains ''embed'' attr then [Image (m val) None d False] else []) xs)
      = map (\<lambda>(rid, alt). Image (m rid) None alt False)
          (map (\<lambda>(attr, val). (val, d)) (filter (\<lambda>(attr, val). contains ''embed'' attr) xs))" for xs d
    by (induction xs) auto
  then show ?thesis by (simp add: node_images_def node_refs_def)
qed

lemma images_of_refs:
  "extract_images_from_paragraph p m =
     map (\<lambda>(rid, alt). Image (m rid) None alt False) (embedded p)"
proof -
  have r: "concat (map (node_images m) run) =
           map (\<lambda>(rid, alt). Image (m rid) None alt False) (concat (map node_refs run))" for run
    by (induction run) (simp_all add: node_images_refs)
  have "concat (map (\<lambda>run. concat (map (node_images m) run)) rs) =
        map (\<lambda>(rid, alt). Image (m rid) None alt False) (concat (map node_refs (concat rs)))" for rs
    by (induction rs) (simp_all add: r)
  then show ?thesis by (simp add: extract_images_from_paragraph_def embedded_def)
qed

lemma place_paragraph_sim:
  assumes "detect_heading txt = None"
  shows "ok_core (place_paragraph m w p txt) =
      apply_events
        (if embedded p \<noteq> []
         then map (\<lambda>(rid, alt).
                     Put (Image (m rid) (detect_caption (last_text w) (Some txt)) alt False))
                (embedded p)
         else if txt \<noteq> [] then [Put (Text txt)] else []) (core w) \<and>
    (snd (place_paragraph m w p txt) = None \<longrightarrow>
       last_text (fst (place_paragraph m w p txt)) = Some txt)"
proof (cases "embedded p = []")
  case True
  then have i: "extract_images_from_paragraph p m = []" by (simp add: images_of_refs)
  show ?thesis
  proof (cases "txt = []")
    case t: True
    with True i show ?thesis by (simp add: place_paragraph_def)
  next
    case False
    with True i append_element_sim[where e="Text txt" and w=w and evs="[]"] show ?thesis
      by (cases "append_element (Text txt) w") (simp_all add: place_paragraph_def)
  qed
next
  case False
  then have i: "extract_images_from_paragraph p m \<noteq> []" by (simp add: images_of_refs)
  let ?c = "detect_caption (last_text w) (Some txt)"
  let ?es = "map (with_caption ?c) (extract_images_from_paragraph p m)"
  have es: "map Put ?es = map (\<lambda>(rid, alt). Put (Image (m rid) ?c alt False)) (embedded p)"
    by (simp add: images_of_refs comp_def case_prod_unfold)
  obtain w' e where a: "append_all w ?es = (w', e)" by (cases "append_all w ?es")
  with append_all_sim[of w ?es] have
    s: "ok_core (w', e) = apply_events (map Put ?es) (core w)" by simp
  from False i a s[unfolded es] show ?thesis
    by (cases e) (simp_all add: place_paragraph_def)
qed

lemma docx_step_sim:
  "ok_core (docx_step m w b) = apply_events (block_events m (last_text w) b) (core w) \<and>
   (snd (docx_step m w b) = None \<longrightarrow>
      last_text (fst (docx_step m w b)) = block_last (last_text w) b)"
proof (cases b)
  case (CT_P p)
  let ?txt = "strip (para_text p)"
  show ?thesis
  proof (cases "detect_heading ?txt")
    case None
    have st: "docx_step m w b = place_paragraph m w p ?txt"
      using None CT_P by (simp add: Let_def)
    have ev: "block_events m (last_text w) b =
       (if embedded p \<noteq> []
         then map (\<lambda>(rid, alt).
                     Put (Image (m rid) (detect_caption (last_text w) (Some ?txt)) alt False))
                (embedded p)
         else if ?txt \<noteq> [] then [Put (Text ?txt)] else [])"
      using None CT_P by (simp add: block_events_def Let_def)
    have bl: "block_last (last_text w) b = Some ?txt"
      using CT_P by (simp add: block_last_def)
    show ?thesis
      unfolding st ev bl by (rule place_paragraph_sim[OF None])
  next
    case (Some h)
    then have "h \<noteq> []" by (rule detect_heading_nonempty)
    moreover from Some have "?txt \<noteq> []" by auto
    ultimately show ?thesis using Some CT_P
      by (simp add: block_events_def block_last_def core_def enter_section_def)
  qed
next
  case (CT_Tbl rows)
  with append_element_sim[where e="Table (map (map strip) rows)" and w=w and evs="[]"] show ?thesis
    by (cases "append_element (Table (map (map strip) rows)) w")
       (simp_all add: block_events_def block_last_def)
next
  case CT_Other
  then show ?thesis by (simp add: block_events_def block_last_def)
qed

lemma docx_loop_sim:
  "ok_core (docx_loop m w bs) = apply_events (docx_events m (last_text w) bs) (core w)"
proof (induction bs arbitrary: w)
  case Nil
  then show ?case by simp
next
  case (Cons b bs)
  obtain w' e where s: "docx_step m w b = (w', e)" by (cases "docx_step m w b")
  show ?case
  proof (cases e)
    case None
    with s docx_step_sim[of m w b] have
      eq: "apply_events (block_events m (last_text w) b) (core w) = Some (core w')"
      and lt: "last_text w' = block_last (last_text w) b" by simp_all
    from Cons[of w'] s None eq lt show ?thesis
      by (simp add: apply_events_append)
  next
    case (Some x)
    with s docx_step_sim[of m w b] have
      eq: "apply_events (block_events m (last_text w) b) (core w) = None" by simp
    with s Some show ?thesis
      by (simp add: apply_events_append)
  qed
qed

lemma parse_docx_model:
  assumes "open_document env p = Some doc" "makedirs_ok env"
  shows "\<exists>lt. parse_docx env h p =
     (\<lparr>sections = docx_model env doc, detected_order = map fst (docx_model env doc),
       last_text = lt\<rparr>, Inr (docx_model env doc))"
proof -
  let ?m = "docx_image_map env doc"
  let ?evs = "docx_events ?m None (body doc)"
  have c0: "core docx_start = ([(''Uncategorized'', [])], [''Uncategorized''], ''Uncategorized'')"
    by (simp add: core_def docx_start_def)
  have l0: "last_text docx_start = None" by (simp add: docx_start_def)
  from apply_events_start[of ?evs] obtain c where
    c: "apply_events ?evs ([(''Uncategorized'', [])], [''Uncategorized''], ''Uncategorized'') = Some c"
    by blast
  obtain w e where l: "docx_loop ?m docx_start (body doc) = (w, e)"
    by (cases "docx_loop ?m docx_start (body doc)")
  with docx_loop_sim[of ?m docx_start "body doc"] c c0 l0 have e: "e = None" and cw: "core w = c"
    by (cases e; simp)+
  from cleanup_events[OF c] cw have "cleanup_core (core w) = (model_of ?evs, model_order ?evs)"
    by simp
  with l e assms have "parse_docx env h p =
     (\<lparr>sections = docx_model env doc, detected_order = map fst (docx_model env doc),
       last_text = last_text w\<rparr>, Inr (docx_model env doc))"
    by (simp add: parse_docx_def cleanup_handler_of docx_model_def docx_image_map_eq
          image_dir_def[symmetric] model_of_keys Let_def)
  then show ?thesis by blast
qed

subsection \<open>Runs and headings of a text\<close>










lemma model_of_Nil [simp]: "model_of [] = []"
  by (simp add: model_of_def model_order_def)





subsection \<open>Events of a document\<close>




subsection \<open>Erasing the paths of images\<close>

lemma erase_puts:
  "map erase_event (map (\<lambda>(rid, alt). Put (Image (m rid) c alt False)) refs) =
     map (\<lambda>(rid, alt). Put (Image None c alt False)) refs"
  by (induction refs) auto

lemma erase_block_events:
  "map erase_event (block_events m1 prev b) = map erase_event (block_events m2 prev b)"
proof (cases b)
  case (CT_P p)
  then show ?thesis
    by (cases "detect_heading (strip (para_text p))")
       (simp_all add: block_events_def Let_def erase_puts del: map_map)
next
  case (CT_Tbl rows)
  then show ?thesis by (simp add: block_events_def)
next
  case CT_Other
  then show ?thesis by (simp add: block_events_def)
qed

lemma erase_docx_events:
  "map erase_event (docx_events m1 prev bs) = map erase_event (docx_events m2 prev bs)"
  by (induction bs arbitrary: prev) (simp_all add: erase_block_events)

lemma filed_erase:
  "filed cur (map erase_event evs) = map (\<lambda>(n, e). (n, erase_path e)) (filed cur evs)"
  by (induction cur evs rule: filed.induct) simp_all

lemma entered_erase: "entered (map erase_event evs) = entered evs"
  by (induction evs rule: entered.induct) simp_all

lemma filed_under_erase:
  "filed_under n cur (map erase_event evs) = map erase_path (filed_under n cur evs)"
  by (simp add: filed_under_def filed_erase filter_map comp_def case_prod_unfold)

lemma model_of_erase: "model_of (map erase_event evs) = erase_paths (model_of evs)"
  by (simp add: model_of_def model_order_def erase_paths_def filed_under_erase entered_erase
        comp_def)

subsection \<open>The images of a document\<close>

lemma puts_no_paths:
  "\<forall>rid. m rid = None \<Longrightarrow>
     map (\<lambda>(rid, alt). Put (Image (m rid) c alt False)) refs =
     map (\<lambda>(rid, alt). Put (Image None c alt False)) refs"
  by simp

lemma erase_block_events_empty:
  assumes "\<forall>rid. m rid = None"
  shows "map erase_event (block_events m prev b) = block_events m prev b"
proof (cases b)
  case (CT_P p)
  then show ?thesis
    by (cases "detect_heading (strip (para_text p))")
       (simp_all add: block_events_def Let_def erase_puts puts_no_paths[OF assms] del: map_map)
next
  case (CT_Tbl rows)
  then show ?thesis by (simp add: block_events_def)
next
  case CT_Other
  then show ?thesis by (simp add: block_events_def)
qed

lemma erase_docx_events_empty:
  "\<forall>rid. m rid = None \<Longrightarrow> map erase_event (docx_events m prev bs) = docx_events m prev bs"
  by (induction bs arbitrary: prev) (simp_all add: erase_block_events_empty)

lemma docx_model_erase:
  "body doc' = body doc \<Longrightarrow> erase_paths (docx_model env' doc') = erase_paths (docx_model env doc)"
  using erase_docx_events[of "docx_image_map env' doc'" None "body doc" "docx_image_map env doc"]
  by (simp add: docx_model_def model_of_erase[symmetric])

lemma docx_model_no_paths:
  assumes "\<forall>rel\<in>set (rels doc). extracted env (image_dir env) rel = None"
  shows "erase_paths (docx_model env doc) = docx_model env doc"
proof -
  have "\<forall>rid. docx_image_map env doc rid = None"
  proof
    fix rid
    show "docx_image_map env doc rid = None"
    proof (cases "docx_image_map env doc rid")
      case None
      then show ?thesis .
    next
      case (Some q)
      from docx_image_map_sound[OF this] assms show ?thesis by auto
    qed
  qed
  from erase_docx_events_empty[OF this] show ?thesis
    by (simp add: docx_model_def model_of_erase[symmetric])
qed



lemma model_of_member:
  "(\<exists>els. (n, els) \<in> set (model_of evs) \<and> e \<in> set els) \<longleftrightarrow>
     (n, e) \<in> set (filed ''Uncategorized'' evs)"
proof
  assume "\<exists>els. (n, els) \<in> set (model_of evs) \<and> e \<in> set els"
  then obtain els where els: "(n, els) \<in> set (model_of evs)" "e \<in> set els" by blast
  from model_of_elems[OF els(1)] els(2) show "(n, e) \<in> set (filed ''Uncategorized'' evs)"
    by (auto simp: filed_under_def)
next
  assume a: "(n, e) \<in> set (filed ''Uncategorized'' evs)"
  then have m: "e \<in> set (filed_under n ''Uncategorized'' evs)"
    by (force simp: filed_under_def)
  then have "filed_under n ''Uncategorized'' evs \<noteq> []" by auto
  then have "n \<in> set (model_order evs)" by (simp add: model_order_iff)
  then have "(n, filed_under n ''Uncategorized'' evs) \<in> set (model_of evs)"
    by (simp add: model_of_def)
  with m show "\<exists>els. (n, els) \<in> set (model_of evs) \<and> e \<in> set els" by blast
qed

lemma filed_append: "\<exists>cur'. filed cur (a @ b) = filed cur a @ filed cur' b"
  by (induction cur a rule: filed.induct) auto

lemma filed_puts:
  "filed cur (map (\<lambda>(rid, alt). Put (f rid alt)) refs) = map (\<lambda>(rid, alt). (cur, f rid alt)) refs"
  by (induction refs) auto

lemma filed_docx_refs:
  assumes "CT_P p \<in> set bs" "detect_heading (strip (para_text p)) = None"
    "(rid, alt) \<in> set (embedded p)"
  shows "\<exists>n cap. (n, Image (m rid) cap alt False) \<in> set (filed cur (docx_events m prev bs))"
  using assms(1)
proof (induction bs arbitrary: cur prev)
  case Nil
  then show ?case by simp
next
  case (Cons b bs)
  obtain cur' where f: "filed cur (docx_events m prev (b # bs)) =
      filed cur (block_events m prev b) @ filed cur' (docx_events m (block_last prev b) bs)"
    using filed_append[of cur "block_events m prev b"] by auto
  show ?case
  proof (cases "b = CT_P p")
    case True
    let ?c = "detect_caption prev (Some (strip (para_text p)))"
    from assms(3) have ne: "embedded p \<noteq> []" by auto
    with True assms(2) have "filed cur (block_events m prev b) =
        map (\<lambda>(rid, alt). (cur, Image (m rid) ?c alt False)) (embedded p)"
      by (simp add: block_events_def Let_def filed_puts)
    with assms(3) have "(cur, Image (m rid) ?c alt False) \<in> set (filed cur (block_events m prev b))"
      by force
    with f show ?thesis by (metis Un_iff set_append)
  next
    case False
    with Cons.prems have "CT_P p \<in> set bs" by simp
    from Cons.IH[OF this, of cur' "block_last prev b"] f show ?thesis
      by (metis Un_iff set_append)
  qed
qed

lemma filed_block_image:
  assumes "(n, Image pth cap alt v) \<in> set (filed cur (block_events m prev b))"
  shows "\<exists>p rid. b = CT_P p \<and> detect_heading (strip (para_text p)) = None \<and>
           (rid, alt) \<in> set (embedded p) \<and> pth = m rid"
proof (cases b)
  case (CT_P p)
  show ?thesis
  proof (cases "detect_heading (strip (para_text p))")
    case None
    show ?thesis
    proof (cases "embedded p = []")
      case True
      with assms CT_P None show ?thesis
        by (simp add: block_events_def Let_def split: if_splits)
    next
      case False
      with assms CT_P None have
        "(n, Image pth cap alt v) \<in> set (map (\<lambda>(rid, alt).
            (cur, Image (m rid) (detect_caption prev (Some (strip (para_text p)))) alt False))
          (embedded p))"
        by (simp add: block_events_def Let_def filed_puts)
      then obtain rid where "(rid, alt) \<in> set (embedded p)" "pth = m rid" by auto
      with CT_P None show ?thesis by blast
    qed
  next
    case (Some h)
    with assms CT_P show ?thesis by (simp add: block_events_def)
  qed
next
  case (CT_Tbl rows)
  with assms show ?thesis by (simp add: block_events_def)
next
  case CT_Other
  with assms show ?thesis by (simp add: block_events_def)
qed

lemma filed_docx_image:
  assumes "(n, Image pth cap alt v) \<in> set (filed cur (docx_events m prev bs))"
  shows "\<exists>p rid. CT_P p \<in> set bs \<and> detect_heading (strip (para_text p)) = None \<and>
           (rid, alt) \<in> set (embedded p) \<and> pth = m rid"
  using assms
proof (induction bs arbitrary: cur prev)
  case Nil
  then show ?case by simp
next
  case (Cons b bs)
  obtain cur' where f: "filed cur (docx_events m prev (b # bs)) =
      filed cur (block_events m prev b) @ filed cur' (docx_events m (block_last prev b) bs)"
    using filed_append[of cur "block_events m prev b"] by auto
  with Cons.prems have "(n, Image pth cap alt v) \<in> set (filed cur (block_events m prev b))
     \<or> (n, Image pth cap alt v) \<in> set (filed cur' (docx_events m (block_last prev b) bs))"
    by simp
  then show ?case
  proof
    assume "(n, Image pth cap alt v) \<in> set (filed cur (block_events m prev b))"
    from filed_block_image[OF this] show ?thesis by auto
  next
    assume "(n, Image pth cap alt v) \<in> set (filed cur' (docx_events m (block_last prev b) bs))"
    from Cons.IH[OF this] show ?thesis by auto
  qed
qed

lemma docx_model_image_kept:
  assumes "CT_P p \<in> set (body doc)" "detect_heading (strip (para_text p)) = None"
    "(rid, alt) \<in> set (embedded p)"
  shows "\<exists>n els cap. (n, els) \<in> set (docx_model env doc) \<and>
           Image (docx_image_map env doc rid) cap alt False \<in> set els"
proof -
  from filed_docx_refs[OF assms, of "docx_image_map env doc" "''Uncategorized''" None]
  obtain n cap where "(n, Image (docx_image_map env doc rid) cap alt False)
      \<in> set (filed ''Uncategorized'' (docx_events (docx_image_map env doc) None (body doc)))"
    by blast
  then have "\<exists>els. (n, els) \<in> set (docx_model env doc) \<and>
      Image (docx_image_map env doc rid) cap alt False \<in> set els"
    by (simp only: docx_model_def model_of_member)
  then show ?thesis by blast
qed

lemma docx_model_image_path:
  assumes "(n, els) \<in> set (docx_model env doc)" "Image pth cap alt v \<in> set els"
  shows "\<exists>p rid. CT_P p \<in> set (body doc) \<and> detect_heading (strip (para_text p)) = None \<and>
           (rid, alt) \<in> set (embedded p) \<and> pth = docx_image_map env doc rid"
proof -
  from assms have "\<exists>els. (n, els) \<in> set (docx_model env doc) \<and> Image pth cap alt v \<in> set els"
    by blast
  then have "(n, Image pth cap alt v)
      \<in> set (filed ''Uncategorized'' (docx_events (docx_image_map env doc) None (body doc)))"
    by (simp only: docx_model_def model_of_member)
  then show ?thesis by (rule filed_docx_image)
qed

subsection \<open>The model after the cleanup\<close>








section \<open>The end-to-end scenario\<close>

text \<open>
  C1. On the text \<open>"Abstract\nThis paper studies X.\n\nIntroduction\nWe begin with Y.\n\n"\<close>,
  \<open>parse_text\<close> returns normally, on any handler; the order is exactly
  \<open>["Abstract", "Introduction"]\<close>, section Abstract holds exactly one Text element,
  "This paper studies X.", and section Introduction exactly one Text element,
  "We begin with Y.".
\<close>

theorem parse_text_end_to_end:
  "parse_text h ''Abstract\<newline>This paper studies X.\<newline>\<newline>Introduction\<newline>We begin with Y.\<newline>\<newline>''
   = (\<lparr>sections = [(''Abstract'', [Text ''This paper studies X.'']),
                    (''Introduction'', [Text ''We begin with Y.''])],
       detected_order = [''Abstract'', ''Introduction''],
       last_text = last_text h\<rparr>,
      Inr [(''Abstract'', [Text ''This paper studies X.'']),
           (''Introduction'', [Text ''We begin with Y.''])])"
  by code_simp


section \<open>Heading detection: the claims\<close>







section \<open>Caption detection\<close>

text \<open>
  C3, on the code as it is. A previous line "Figure 1: Sample output" is the caption of an
  image with no current line. A current line "Fig. 2 - Growth chart" is not recognized,
  and \<open>_detect_caption\<close> returns \<open>None\<close>, for two reasons, each enough on its own: after
  \<open>fig\<close> the pattern allows \<open>ure\<close>, whitespace and digits only, so the \<open>.\<close> of "Fig." stops
  the match; and the separator has to follow the digits at once, so the space between "2"
  and \<open>-\<close> stops it too. With neither, "Fig 2- Growth chart" is recognized.
\<close>

theorem detect_caption_examples:
  "detect_caption (Some ''Figure 1: Sample output'') None = Some ''Figure 1: Sample output'' \<and>
   detect_caption (Some ''The growth is shown below.'') (Some ''Fig. 2 - Growth chart'') = None \<and>
   detect_caption (Some ''The growth is shown below.'') (Some ''Fig. 2- Growth chart'') = None \<and>
   detect_caption (Some ''The growth is shown below.'') (Some ''Fig 2 - Growth chart'') = None \<and>
   detect_caption (Some ''The growth is shown below.'') (Some ''Fig 2- Growth chart'')
     = Some ''Fig 2- Growth chart''"
  by code_simp


section \<open>The section classifier\<close>





section \<open>The parsers: the claims\<close>

text \<open>
  C7. When \<open>Document(path)\<close> raises, the file being corrupt or unreadable, \<open>parse_docx\<close>
  raises a document-read error and returns no model, and the handler is as it was before
  the call: \<open>sections\<close> and \<open>detected_order\<close> are unchanged.
\<close>

theorem parse_docx_unreadable:
  "open_document env docx_path = None \<Longrightarrow>
     parse_docx env h docx_path = (h, Inl DocumentReadError)"
  by (simp add: parse_docx_def)

theorem parse_docx_unreadable_witness:
  "open_document
      \<lparr>open_document = (\<lambda>_. None), tempdir = ''/tmp'', makedirs_ok = True, write_ok = (\<lambda>_. True)\<rparr>
      ''broken.docx'' = None \<and>
   parse_docx
      \<lparr>open_document = (\<lambda>_. None), tempdir = ''/tmp'', makedirs_ok = True, write_ok = (\<lambda>_. True)\<rparr>
      \<lparr>sections = [(''Abstract'', [Text ''kept''])], detected_order = [''Abstract''],
       last_text = None\<rparr>
      ''broken.docx''
    = (\<lparr>sections = [(''Abstract'', [Text ''kept''])], detected_order = [''Abstract''],
        last_text = None\<rparr>,
       Inl DocumentReadError)"
  using parse_docx_unreadable
    [of "\<lparr>open_document = (\<lambda>_. None), tempdir = ''/tmp'', makedirs_ok = True,
          write_ok = (\<lambda>_. True)\<rparr>"
        "''broken.docx''"
        "\<lparr>sections = [(''Abstract'', [Text ''kept''])], detected_order = [''Abstract''],
          last_text = None\<rparr>"]
  by simp

text \<open>
  C9. \<open>parse_text\<close> resets the state it works on: on the same text, two handlers in any
  state return the same value and are left with the same \<open>sections\<close> and the same
  \<open>detected_order\<close>, and a second run on the handler that the first run left behind gives
  what the first run gave.
\<close>

theorem parse_text_deterministic:
  "snd (parse_text h1 t) = snd (parse_text h2 t) \<and>
   sections (fst (parse_text h1 t)) = sections (fst (parse_text h2 t)) \<and>
   detected_order (fst (parse_text h1 t)) = detected_order (fst (parse_text h2 t)) \<and>
   parse_text (fst (parse_text h t)) t = parse_text h t"
  by (simp add: parse_text_any_handler[of h1] parse_text_any_handler[of h2]
        parse_text_any_handler[of h] parse_text_any_handler[of "_\<lparr>last_text := _\<rparr>"])





text \<open>
  C8. Whatever the extraction of the embedded images does, \<open>parse_docx\<close> on a document
  that could be opened returns a model (with the directory of the images in place).
  Forgetting the paths of the images, the model is the same for every outcome of the
  extraction: every element is kept, in its place. Every image reference of a paragraph
  that is not a heading has its Image element in the model, with the path saved for its
  own relationship id, and every Image element of the model is that of such a reference.
  The path saved for a relationship id is that of a relationship with this id that was
  extracted with success, and it is absent when the extraction failed for every
  relationship with this id; the ids being distinct, as the keys of the relationships of
  a document part are, the path saved for each relationship is what its own extraction
  gave, whatever happened to the others. Where every extraction fails, every image is
  there with its path absent.
\<close>

theorem parse_docx_survives_extraction:
  assumes "open_document env docx_path = Some doc" and "makedirs_ok env"
  shows "\<exists>M. snd (parse_docx env h docx_path) = Inr M \<and>
     M = docx_model env doc \<and>
     (\<forall>env' doc' h'.
         open_document env' docx_path = Some doc' \<and> makedirs_ok env' \<and> body doc' = body doc \<longrightarrow>
         (\<exists>M'. snd (parse_docx env' h' docx_path) = Inr M' \<and> erase_paths M' = erase_paths M)) \<and>
     (\<forall>p rid alt.
         CT_P p \<in> set (body doc) \<and> detect_heading (strip (para_text p)) = None \<and>
         (rid, alt) \<in> set (embedded p) \<longrightarrow>
         (\<exists>n els cap. (n, els) \<in> set M \<and>
            Image (saved_path env (image_dir env) (rels doc) rid) cap alt False \<in> set els)) \<and>
     (\<forall>n els pth cap alt v.
         (n, els) \<in> set M \<and> Image pth cap alt v \<in> set els \<longrightarrow>
         (\<exists>p rid. CT_P p \<in> set (body doc) \<and> detect_heading (strip (para_text p)) = None \<and>
            (rid, alt) \<in> set (embedded p) \<and>
            pth = saved_path env (image_dir env) (rels doc) rid)) \<and>
     (\<forall>rid q. saved_path env (image_dir env) (rels doc) rid = Some q \<longrightarrow>
         (\<exists>rel\<in>set (rels doc). rId rel = rid \<and> extracted env (image_dir env) rel = Some q)) \<and>
     (\<forall>rid. (\<forall>rel\<in>set (rels doc). rId rel = rid \<longrightarrow> extracted env (image_dir env) rel = None) \<longrightarrow>
         saved_path env (image_dir env) (rels doc) rid = None) \<and>
     (distinct (map rId (rels doc)) \<longrightarrow>
        (\<forall>rel\<in>set (rels doc).
           saved_path env (image_dir env) (rels doc) (rId rel) = extracted env (image_dir env) rel)) \<and>
     ((\<forall>rel\<in>set (rels doc). extracted env (image_dir env) rel = None) \<longrightarrow>
        erase_paths M = M)"
proof -
  let ?M = "docx_model env doc"
  let ?f = "saved_path env (image_dir env) (rels doc)"
  from parse_docx_model[OF assms, of h] have
    r: "snd (parse_docx env h docx_path) = Inr ?M" by auto
  have 1: "\<forall>env' doc' h'.
         open_document env' docx_path = Some doc' \<and> makedirs_ok env' \<and> body doc' = body doc \<longrightarrow>
         (\<exists>M'. snd (parse_docx env' h' docx_path) = Inr M' \<and> erase_paths M' = erase_paths ?M)"
  proof (intro allI impI)
    fix env' :: environment and doc' :: document and h' :: handler
    assume a: "open_document env' docx_path = Some doc' \<and> makedirs_ok env' \<and> body doc' = body doc"
    with parse_docx_model[of env' docx_path doc' h'] have
      "snd (parse_docx env' h' docx_path) = Inr (docx_model env' doc')" by auto
    moreover from a have "erase_paths (docx_model env' doc') = erase_paths ?M"
      by (simp add: docx_model_erase)
    ultimately show "\<exists>M'. snd (parse_docx env' h' docx_path) = Inr M' \<and>
        erase_paths M' = erase_paths ?M" by blast
  qed
  have 2: "\<forall>p rid alt.
         CT_P p \<in> set (body doc) \<and> detect_heading (strip (para_text p)) = None \<and>
         (rid, alt) \<in> set (embedded p) \<longrightarrow>
         (\<exists>n els cap. (n, els) \<in> set ?M \<and> Image (?f rid) cap alt False \<in> set els)"
  proof (intro allI impI)
    fix p rid alt
    assume "CT_P p \<in> set (body doc) \<and> detect_heading (strip (para_text p)) = None \<and>
         (rid, alt) \<in> set (embedded p)"
    then have a1: "CT_P p \<in> set (body doc)"
      and a2: "detect_heading (strip (para_text p)) = None"
      and a3: "(rid, alt) \<in> set (embedded p)" by simp_all
    have "\<exists>n els cap. (n, els) \<in> set ?M \<and>
           Image (docx_image_map env doc rid) cap alt False \<in> set els"
      by (rule docx_model_image_kept[OF a1 a2 a3])
    then show "\<exists>n els cap. (n, els) \<in> set ?M \<and> Image (?f rid) cap alt False \<in> set els"
      by (simp only: docx_image_map_def)
  qed
  have 3: "\<forall>n els pth cap alt v.
         (n, els) \<in> set ?M \<and> Image pth cap alt v \<in> set els \<longrightarrow>
         (\<exists>p rid. CT_P p \<in> set (body doc) \<and> detect_heading (strip (para_text p)) = None \<and>
            (rid, alt) \<in> set (embedded p) \<and> pth = ?f rid)"
  proof (intro allI impI)
    fix n els pth cap alt v
    assume a: "(n, els) \<in> set ?M \<and> Image pth cap alt v \<in> set els"
    then have "(n, els) \<in> set ?M" and "Image pth cap alt v \<in> set els" by simp_all
    then have "\<exists>p rid. CT_P p \<in> set (body doc) \<and> detect_heading (strip (para_text p)) = None \<and>
           (rid, alt) \<in> set (embedded p) \<and> pth = docx_image_map env doc rid"
      by (rule docx_model_image_path)
    then show "\<exists>p rid. CT_P p \<in> set (body doc) \<and> detect_heading (strip (para_text p)) = None \<and>
            (rid, alt) \<in> set (embedded p) \<and> pth = ?f rid"
      by (simp only: docx_image_map_def)
  qed
  have 4: "\<forall>rid q. ?f rid = Some q \<longrightarrow>
         (\<exists>rel\<in>set (rels doc). rId rel = rid \<and> extracted env (image_dir env) rel = Some q)"
    by (intro allI impI) (rule saved_path_sound)
  have 5: "\<forall>rid. (\<forall>rel\<in>set (rels doc). rId rel = rid \<longrightarrow> extracted env (image_dir env) rel = None) \<longrightarrow>
         ?f rid = None"
    by (intro allI impI) (rule saved_path_failed)
  have 6: "distinct (map rId (rels doc)) \<longrightarrow>
        (\<forall>rel\<in>set (rels doc). ?f (rId rel) = extracted env (image_dir env) rel)"
    by (intro impI ballI) (rule saved_path_distinct)
  have 7: "(\<forall>rel\<in>set (rels doc). extracted env (image_dir env) rel = None) \<longrightarrow>
        erase_paths ?M = ?M"
    by (rule impI) (rule docx_model_no_paths)
  from r 1 2 3 4 5 6 7 show ?thesis
    by (intro exI[of _ ?M] conjI) (rule refl | assumption)+
qed

theorem parse_docx_survives_extraction_witness:
  "snd (parse_docx
          \<lparr>open_document =
              (\<lambda>_. Some \<lparr>body = [CT_P \<lparr>para_text = ''Figure 1: Setup'', runs = []\<rparr>,
                                  CT_P \<lparr>para_text = [],
                                        runs = [[\<lparr>attrib = [(''r:embed'', ''rId7''),
                                                            (''descr'', ''the setup'')]\<rparr>]]\<rparr>,
                                  CT_P \<lparr>para_text = ''Methods'', runs = []\<rparr>,
                                  CT_P \<lparr>para_text = ''Fig 2: Result'',
                                        runs = [[\<lparr>attrib = [(''r:embed'', ''rId8'')]\<rparr>]]\<rparr>,
                                  CT_P \<lparr>para_text = ''After the images.'', runs = []\<rparr>],
                          rels = [\<lparr>rId = ''rId7'', reltype = ''relationships/image'',
                                   target_partname = None\<rparr>,
                                  \<lparr>rId = ''rId8'', reltype = ''relationships/image'',
                                   target_partname = Some ''/word/media/image2.png''\<rparr>]\<rparr>),
            tempdir = ''/tmp'', makedirs_ok = True, write_ok = (\<lambda>_. True)\<rparr>
          init_handler ''paper.docx'')
     = Inr [(''Uncategorized'',
             [Text ''Figure 1: Setup'',
              Image None (Some ''Figure 1: Setup'') ''the setup'' False]),
            (''Methods'',
             [Image (Some ''/tmp/docmaster_images/image2.png'') (Some ''Fig 2: Result'') [] False,
              Text ''After the images.''])]"
proof -
  let ?doc = "\<lparr>body = [CT_P \<lparr>para_text = ''Figure 1: Setup'', runs = []\<rparr>,
                                  CT_P \<lparr>para_text = [],
                                        runs = [[\<lparr>attrib = [(''r:embed'', ''rId7''),
                                                            (''descr'', ''the setup'')]\<rparr>]]\<rparr>,
                                  CT_P \<lparr>para_text = ''Methods'', runs = []\<rparr>,
                                  CT_P \<lparr>para_text = ''Fig 2: Result'',
                                        runs = [[\<lparr>attrib = [(''r:embed'', ''rId8'')]\<rparr>]]\<rparr>,
                                  CT_P \<lparr>para_text = ''After the images.'', runs = []\<rparr>],
                          rels = [\<lparr>rId = ''rId7'', reltype = ''relationships/image'',
                                   target_partname = None\<rparr>,
                                  \<lparr>rId = ''rId8'', reltype = ''relationships/image'',
                                   target_partname = Some ''/word/media/image2.png''\<rparr>]\<rparr>"
  let ?env = "\<lparr>open_document = (\<lambda>_. Some ?doc),
            tempdir = ''/tmp'', makedirs_ok = True, write_ok = (\<lambda>_. True)\<rparr>"
  have o: "open_document ?env ''paper.docx'' = Some ?doc" by simp
  have m: "makedirs_ok ?env" by simp
  have d: "docx_model ?env ?doc
     = [(''Uncategorized'',
             [Text ''Figure 1: Setup'',
              Image None (Some ''Figure 1: Setup'') ''the setup'' False]),
            (''Methods'',
             [Image (Some ''/tmp/docmaster_images/image2.png'') (Some ''Fig 2: Result'') [] False,
              Text ''After the images.''])]"
    by code_simp
  from parse_docx_survives_extraction[OF o m, of init_handler] have
    "snd (parse_docx ?env init_handler ''paper.docx'') = Inr (docx_model ?env ?doc)" by blast
  with d show ?thesis by simp
qed



end
